theory Spec2Isabelle
  imports Main
begin

section \<open>Python values and exceptions\<close>

text \<open>
  The parser of \<^verbatim>\<open>response_parser.py\<close> (Python 2) returns nested tuples of
  \<^verbatim>\<open>None\<close>, integers and byte strings. Python's integers are unbounded, its
  \<^verbatim>\<open>str\<close> is a sequence of 8-bit characters.
\<close>

datatype pval = PNone | PInt int | PStr string | PTuple "pval list"

text \<open>
  Exceptions are values. \<open>ParseError\<close> is the module's own class (a subclass of
  \<^verbatim>\<open>ValueError\<close>); the others are raised by the built-in operations that the
  module calls. Each carries its message.
\<close>

datatype error =
    ParseError string
  | ValueError string
  | TypeError string
  | AttributeError string
  | IndexError string
  | KeyError string
  | OverflowError string

text \<open>\<^verbatim>\<open>except ValueError\<close> catches \<open>ValueError\<close> and its subclass \<open>ParseError\<close>.\<close>

fun is_ParseError :: "error \<Rightarrow> bool" where
  "is_ParseError (ParseError m) = True"
| "is_ParseError e = False"

subsection \<open>Characters\<close>

definition isspace :: "char \<Rightarrow> bool" where
  "isspace c \<longleftrightarrow> c \<in> set [CHR 0x20, CHR 0x09, CHR 0x0A, CHR 0x0B, CHR 0x0C, CHR 0x0D]"

definition isdigit :: "char \<Rightarrow> bool" where
  "isdigit c \<longleftrightarrow> c \<in> set ''0123456789''"

definition digit_value :: "char \<Rightarrow> nat" where
  "digit_value c = of_char c - 48"

definition digit_char :: "nat \<Rightarrow> char" where
  "digit_char d = ''0123456789'' ! d"

definition decimal_value :: "string \<Rightarrow> nat" where
  "decimal_value ds = foldl (\<lambda>a c. 10 * a + digit_value c) 0 ds"

text \<open>\<^verbatim>\<open>str.upper()\<close> of a byte string in the C locale: only \<^verbatim>\<open>a\<close>..\<^verbatim>\<open>z\<close> change.\<close>

definition upper_char :: "char \<Rightarrow> char" where
  "upper_char c =
     (case map_of (zip ''abcdefghijklmnopqrstuvwxyz'' ''ABCDEFGHIJKLMNOPQRSTUVWXYZ'') c of
        Some u \<Rightarrow> u
      | None \<Rightarrow> c)"

definition str_upper :: "string \<Rightarrow> string" where
  "str_upper s = map upper_char s"

text \<open>\<^verbatim>\<open>str.isdigit()\<close>: at least one character, and all of them digits.\<close>

definition str_isdigit :: "string \<Rightarrow> bool" where
  "str_isdigit s \<longleftrightarrow> s \<noteq> [] \<and> list_all isdigit s"

subsection \<open>\<^verbatim>\<open>str\<close>, \<^verbatim>\<open>repr\<close> and \<^verbatim>\<open>%d\<close>\<close>

fun show_nat :: "nat \<Rightarrow> string" where
  "show_nat n = (if n < 10 then [digit_char n] else show_nat (n div 10) @ [digit_char (n mod 10)])"

definition show_int :: "int \<Rightarrow> string" where
  "show_int i = (if i < 0 then CHR ''-'' # show_nat (nat (- i)) else show_nat (nat i))"

definition hex_char :: "nat \<Rightarrow> char" where
  "hex_char d = ''0123456789abcdef'' ! d"

text \<open>
  \<^verbatim>\<open>repr\<close> of a byte string: single quotes unless the string holds a single quote
  and no double quote; the quote and the backslash are escaped, tab, newline and
  carriage return are written \<^verbatim>\<open>\t\<close>, \<^verbatim>\<open>\n\<close>, \<^verbatim>\<open>\r\<close>, and every other character
  outside the printable ASCII range as \<^verbatim>\<open>\xNN\<close>.
\<close>

definition repr_quote :: "string \<Rightarrow> char" where
  "repr_quote s = (if CHR 0x27 \<in> set s \<and> CHR 0x22 \<notin> set s then CHR 0x22 else CHR 0x27)"

definition repr_char :: "char \<Rightarrow> char \<Rightarrow> string" where
  "repr_char q c =
     (if c = q \<or> c = CHR 0x5C then [CHR 0x5C, c]
      else if c = CHR 0x09 then [CHR 0x5C, CHR ''t'']
      else if c = CHR 0x0A then [CHR 0x5C, CHR ''n'']
      else if c = CHR 0x0D then [CHR 0x5C, CHR ''r'']
      else if (of_char c :: nat) < 32 \<or> (of_char c :: nat) \<ge> 127
        then [CHR 0x5C, CHR ''x'', hex_char (of_char c div 16), hex_char (of_char c mod 16)]
      else [c])"

definition repr_str :: "string \<Rightarrow> string" where
  "repr_str s = (let q = repr_quote s in [q] @ concat (map (repr_char q) s) @ [q])"

text \<open>\<^verbatim>\<open>sep.join(parts)\<close>.\<close>

fun join :: "string \<Rightarrow> string list \<Rightarrow> string" where
  "join sep [] = []"
| "join sep [p] = p"
| "join sep (p # q # ps) = p @ sep @ join sep (q # ps)"

fun py_repr :: "pval \<Rightarrow> string" where
  "py_repr PNone = ''None''"
| "py_repr (PInt i) = show_int i"
| "py_repr (PStr s) = repr_str s"
| "py_repr (PTuple vs) =
     (case vs of
        [] \<Rightarrow> ''()''
      | [v] \<Rightarrow> ''('' @ py_repr v @ '',)''
      | _ \<Rightarrow> ''('' @ join '', '' (map py_repr vs) @ '')'')"

fun py_str :: "pval \<Rightarrow> string" where
  "py_str (PStr s) = s"
| "py_str v = py_repr v"

subsection \<open>\<^verbatim>\<open>int()\<close>\<close>

text \<open>
  \<^verbatim>\<open>int(s)\<close> of a byte string in Python 2 accepts optional white space, an optional
  sign, optional white space again, one or more decimal digits and optional white
  space; anything else is a \<open>ValueError\<close>, whose message quotes the string from its
  first non-space character, cut at 200 characters.
\<close>

definition invalid_literal :: "string \<Rightarrow> error" where
  "invalid_literal s =
     ValueError (''invalid literal for int() with base 10: '' @ repr_str (take 200 (dropWhile isspace s)))"

definition int_of_str :: "string \<Rightarrow> error + int" where
  "int_of_str s =
     (let s1 = dropWhile isspace s;
          neg = (case s1 of c # _ \<Rightarrow> c = CHR ''-'' | [] \<Rightarrow> False);
          s2 = (case s1 of c # r \<Rightarrow> if c = CHR ''+'' \<or> c = CHR ''-'' then r else s1 | [] \<Rightarrow> s1);
          s3 = dropWhile isspace s2;
          ds = takeWhile isdigit s3;
          rest = dropWhile isspace (dropWhile isdigit s3)
      in if ds = [] \<or> rest \<noteq> [] then Inl (invalid_literal s)
         else Inr (if neg then - int (decimal_value ds) else int (decimal_value ds)))"

definition squote :: "string \<Rightarrow> string" where
  "squote s = [CHR 0x27] @ s @ [CHR 0x27]"

definition int_type_error :: "string \<Rightarrow> error" where
  "int_type_error type_name =
     TypeError (''int() argument must be a string or a number, not '' @ squote type_name)"

fun py_int :: "pval \<Rightarrow> error + int" where
  "py_int (PInt i) = Inr i"
| "py_int (PStr s) = int_of_str s"
| "py_int PNone = Inl (int_type_error ''NoneType'')"
| "py_int (PTuple vs) = Inl (int_type_error ''tuple'')"

section \<open>The parser\<close>

text \<open>
  \<^verbatim>\<open>atom(src, token)\<close> reads from the token source \<^verbatim>\<open>src\<close>, an iterator of the
  module \<^verbatim>\<open>response_lexer\<close>, which is not among the sources. The iterator is
  modelled by the tokens it has still to yield, each paired with the value that
  \<^verbatim>\<open>src.current_literal\<close> has while that token is the latest one yielded
  (\<open>None\<close> is Python's \<^verbatim>\<open>None\<close>). A call returns the value it built together with
  the tokens it left in the source. The \<^verbatim>\<open>for\<close> loop of the tuple branch is
  \<open>atom_loop\<close>, whose second argument is the list \<^verbatim>\<open>out\<close>.
\<close>

type_synonym token = "string \<times> string option"

text \<open>
  The error of a tuple left open at the end of the source:
  \<^verbatim>\<open>ParseError('Tuple incomplete before "(%s"' % ' '.join(str(val) for val in out))\<close>.
\<close>

definition tuple_incomplete :: "pval list \<Rightarrow> error" where
  "tuple_incomplete out =
     ParseError (''Tuple incomplete before '' @ [CHR 0x22] @ ''('' @ join '' '' (map py_str out))"

function (sequential) atom :: "token list \<Rightarrow> token \<Rightarrow> error + (pval \<times> token list)"
  and atom_loop :: "token list \<Rightarrow> pval list \<Rightarrow> error + (pval \<times> token list)"
where
  "atom src (tok, lit) =
     (if tok = ''('' then atom_loop src []
      else if tok = ''NIL'' then Inr (PNone, src)
      else if tok = [] then Inl (IndexError ''string index out of range'')
      else if hd tok = CHR ''{'' then
        (case int_of_str (butlast (tl tok)) of
           Inl e \<Rightarrow> Inl e
         | Inr literal_len \<Rightarrow>
             (case lit of
                None \<Rightarrow> Inl (ParseError (''No literal corresponds to '' @ repr_str tok))
              | Some literal_text \<Rightarrow>
                  if int (length literal_text) \<noteq> literal_len
                  then Inl (ParseError (''Expecting literal of size '' @ show_int literal_len
                         @ '', got '' @ show_int (int (length literal_text))))
                  else Inr (PStr literal_text, src)))
      else if length tok \<ge> 2 \<and> hd tok = CHR 0x22 \<and> last tok = CHR 0x22
        then Inr (PStr (butlast (tl tok)), src)
      else if str_isdigit tok then Inr (PInt (int (decimal_value tok)), src)
      else Inr (PStr tok, src))"
| "atom_loop [] out = Inl (tuple_incomplete out)"
| "atom_loop ((tok, lit) # src) out =
     (if tok = '')'' then Inr (PTuple out, src)
      else case atom src (tok, lit) of
             Inl e \<Rightarrow> Inl e
           | Inr (v, src') \<Rightarrow> atom_loop src' (out @ [v]))"
  by pat_completeness auto

lemma atom_dom_length:
  "atom_atom_loop_dom (Inl (src, t)) \<Longrightarrow> atom src t = Inr (v, src') \<Longrightarrow> length src' \<le> length src"
  "atom_atom_loop_dom (Inr (src, out)) \<Longrightarrow> atom_loop src out = Inr (v, src') \<Longrightarrow> length src' \<le> length src"
proof (induct src t and src out arbitrary: v src' and v src' rule: atom_atom_loop.pinduct)
  case (1 src tok lit)
  then show ?case
    by (auto simp: atom.psimps split: if_splits sum.splits option.splits)
next
  case (2 out)
  then show ?case by (simp add: atom_loop.psimps)
next
  case (3 tok lit src out)
  then show ?case
    by (fastforce simp: atom_loop.psimps split: if_splits sum.splits prod.splits)
qed

termination atom
  by (relation "measure (\<lambda>x. case x of Inl (src, t) \<Rightarrow> 2 * length src + 1
                                     | Inr (src, out) \<Rightarrow> 2 * length src)")
     (auto dest: atom_dom_length(1))

lemma atom_length:
  "atom src t = Inr (v, src') \<Longrightarrow> length src' \<le> length src"
  "atom_loop src out = Inr (v, src') \<Longrightarrow> length src' \<le> length src"
proof (induct src t and src out arbitrary: v src' and v src' rule: atom_atom_loop.induct)
  case (1 src tok lit)
  then show ?case
    by (auto split: if_splits sum.splits option.splits)
next
  case (2 out)
  then show ?case by simp
next
  case (3 tok lit src out)
  then show ?case
    by (fastforce simp del: atom.simps split: if_splits sum.splits prod.splits)
qed

declare atom.simps [simp del]

text \<open>
  \<^verbatim>\<open>gen_parsed_response\<close> is a generator. \<open>gen_next\<close> is one call of its
  \<^verbatim>\<open>next()\<close>: \<open>Inr None\<close> is \<^verbatim>\<open>StopIteration\<close>, \<open>Inr (Some (v, src'))\<close> the
  value yielded and the tokens left. A \<open>ParseError\<close> passes unchanged, any other
  \<open>ValueError\<close> is wrapped into a \<open>ParseError\<close> that names the top-level token, and
  an exception of another class propagates as it is. An empty \<^verbatim>\<open>text\<close> yields
  nothing, as the empty token source does.
\<close>

definition gen_next :: "token list \<Rightarrow> error + (pval \<times> token list) option" where
  "gen_next src =
     (case src of
        [] \<Rightarrow> Inr None
      | (tok, lit) # rest \<Rightarrow>
          (case atom rest (tok, lit) of
             Inl (ValueError m) \<Rightarrow> Inl (ParseError (m @ '': '' @ tok))
           | Inl e \<Rightarrow> Inl e
           | Inr r \<Rightarrow> Inr (Some r)))"

lemma gen_next_length: "gen_next src = Inr (Some (v, src')) \<Longrightarrow> length src' < length src"
  by (auto simp: gen_next_def split: list.splits sum.splits error.splits dest!: atom_length(1))

text \<open>\<^verbatim>\<open>tuple(gen_parsed_response(text))\<close>: every value of the generator, in order.\<close>

function gen_parsed_response :: "token list \<Rightarrow> error + pval list" where
  "gen_parsed_response src =
     (case gen_next src of
        Inl e \<Rightarrow> Inl e
      | Inr None \<Rightarrow> Inr []
      | Inr (Some (v, src')) \<Rightarrow>
          (case gen_parsed_response src' of
             Inl e \<Rightarrow> Inl e
           | Inr vs \<Rightarrow> Inr (v # vs)))"
  by pat_completeness auto
termination
  by (relation "measure length") (auto dest: gen_next_length)

declare gen_parsed_response.simps [simp del]

definition parse_response :: "token list \<Rightarrow> error + pval" where
  "parse_response src = map_sum id PTuple (gen_parsed_response src)"

section \<open>Dates and times\<close>

text \<open>
  \<^verbatim>\<open>datetime\<close> belongs to Python's library. A naive \<^verbatim>\<open>datetime\<close> with no
  microseconds is represented by the number of seconds from 0001-01-01T00:00:00 of
  the proleptic Gregorian calendar to it, the quantity on which the library compares
  and adds; its constructor checks the fields and fails on a date that does not
  exist. The last valid day is 9999-12-31, day number 3652059.
\<close>

datatype datetime = Datetime int

definition is_leap :: "int \<Rightarrow> bool" where
  "is_leap y \<longleftrightarrow> y mod 4 = 0 \<and> (y mod 100 \<noteq> 0 \<or> y mod 400 = 0)"

definition days_in_month :: "int \<Rightarrow> nat \<Rightarrow> int" where
  "days_in_month y m =
     (if m = 2 \<and> is_leap y then 29
      else [31, 28, 31, 30, 31, 30, 31, 31, 30, 31, 30, 31] ! (m - 1))"

definition days_before_year :: "int \<Rightarrow> int" where
  "days_before_year y = (y - 1) * 365 + (y - 1) div 4 - (y - 1) div 100 + (y - 1) div 400"

definition days_before_month :: "int \<Rightarrow> nat \<Rightarrow> int" where
  "days_before_month y m = sum_list (map (days_in_month y) [1..<m])"

definition ymd2ord :: "int \<Rightarrow> nat \<Rightarrow> int \<Rightarrow> int" where
  "ymd2ord y m d = days_before_year y + days_before_month y m + d"

definition seconds_of :: "int \<Rightarrow> nat \<Rightarrow> int \<Rightarrow> int \<Rightarrow> int \<Rightarrow> int \<Rightarrow> int" where
  "seconds_of y m d hh mm ss = (ymd2ord y m d - 1) * 86400 + hh * 3600 + mm * 60 + ss"

definition max_seconds :: int where
  "max_seconds = 3652059 * 86400"

text \<open>\<^verbatim>\<open>datetime(year, month, day, hour, minute, second, 0, tz)\<close>, without its zone.\<close>

definition datetime_new :: "int \<Rightarrow> nat \<Rightarrow> int \<Rightarrow> int \<Rightarrow> int \<Rightarrow> int \<Rightarrow> error + datetime" where
  "datetime_new y m d hh mm ss =
     (if y < 1 \<or> y > 9999 then Inl (ValueError ''year is out of range'')
      else if m < 1 \<or> m > 12 then Inl (ValueError ''month must be in 1..12'')
      else if d < 1 \<or> d > days_in_month y m then Inl (ValueError ''day is out of range for month'')
      else if hh < 0 \<or> hh > 23 then Inl (ValueError ''hour must be in 0..23'')
      else if mm < 0 \<or> mm > 59 then Inl (ValueError ''minute must be in 0..59'')
      else if ss < 0 \<or> ss > 59 then Inl (ValueError ''second must be in 0..59'')
      else Inr (Datetime (seconds_of y m d hh mm ss)))"

text \<open>
  The library accepts the offset of a zone only strictly between minus and plus one
  day, and refuses a sum that leaves the years 1 to 9999.
\<close>

definition check_utcoffset :: "int \<Rightarrow> error + int" where
  "check_utcoffset minutes =
     (if - 1440 < minutes \<and> minutes < 1440 then Inr minutes
      else Inl (ValueError (''tzinfo.utcoffset() returned ''
             @ show_int (if minutes = - 1440 then - 1440 else 1440)
             @ ''; value must be in -1439 .. 1439'')))"

definition datetime_add :: "datetime \<Rightarrow> int \<Rightarrow> error + datetime" where
  "datetime_add dt delta =
     (case dt of Datetime s \<Rightarrow>
        if 0 \<le> s + delta \<and> s + delta < max_seconds then Inr (Datetime (s + delta))
        else Inl (OverflowError ''date value out of range''))"

definition bind :: "error + 'a \<Rightarrow> ('a \<Rightarrow> error + 'b) \<Rightarrow> error + 'b" where
  "bind m f = (case m of Inl e \<Rightarrow> Inl e | Inr x \<Rightarrow> f x)"

text \<open>
  Modelled from the spec: \<^verbatim>\<open>FixedOffset\<close> (\<^verbatim>\<open>fixed_offset.py\<close> is not among the
  sources) is a zone at a fixed number of minutes east of UTC, with no daylight
  saving part, and \<^verbatim>\<open>FixedOffset.for_system()\<close> is the zone of the host, which the
  model takes as the parameter \<open>host\<close>, in minutes. \<open>astimezone_naive dt offset host\<close>
  is \<^verbatim>\<open>dt.astimezone(FixedOffset.for_system()).replace(tzinfo=None)\<close> for a \<^verbatim>\<open>dt\<close>
  in the zone \<^verbatim>\<open>FixedOffset(offset)\<close>: the library subtracts the offset of \<^verbatim>\<open>dt\<close>,
  then adds the offset of the target zone.
\<close>

definition astimezone_naive :: "datetime \<Rightarrow> int \<Rightarrow> int \<Rightarrow> error + datetime" where
  "astimezone_naive dt offset host =
     bind (check_utcoffset offset) (\<lambda>off.
     bind (datetime_add dt (- (off * 60))) (\<lambda>utc.
     bind (check_utcoffset host) (\<lambda>h.
       if h = 0 then Inr utc else datetime_add utc (h * 60))))"

subsection \<open>The pattern \<^verbatim>\<open>imaplib.InternalDate\<close>\<close>

text \<open>
  The library's regular expression is \<^verbatim>\<open>.*INTERNALDATE "\<close> followed by the day
  (\<^verbatim>\<open>[ 0123][0-9]\<close>), \<^verbatim>\<open>-\<close>, the month (\<^verbatim>\<open>[A-Z][a-z][a-z]\<close>), \<^verbatim>\<open>-\<close>, four digits of
  year, a space, \<^verbatim>\<open>HH:MM:SS\<close>, a space, a sign, four digits of zone and a closing
  double quote. A pattern is a list of character classes.
\<close>

definition isupper :: "char \<Rightarrow> bool" where
  "isupper c \<longleftrightarrow> c \<in> set ''ABCDEFGHIJKLMNOPQRSTUVWXYZ''"

definition islower :: "char \<Rightarrow> bool" where
  "islower c \<longleftrightarrow> c \<in> set ''abcdefghijklmnopqrstuvwxyz''"

fun match_here :: "(char \<Rightarrow> bool) list \<Rightarrow> string \<Rightarrow> bool" where
  "match_here [] s = True"
| "match_here (p # ps) [] = False"
| "match_here (p # ps) (c # cs) = (p c \<and> match_here ps cs)"

definition lit :: "string \<Rightarrow> (char \<Rightarrow> bool) list" where
  "lit s = map (\<lambda>c x. x = c) s"

definition one_of :: "string \<Rightarrow> char \<Rightarrow> bool" where
  "one_of s c \<longleftrightarrow> c \<in> set s"

definition InternalDate :: "(char \<Rightarrow> bool) list" where
  "InternalDate =
     lit ''INTERNALDATE '' @ lit [CHR 0x22]
     @ [one_of '' 0123'', isdigit] @ lit ''-'' @ [isupper, islower, islower] @ lit ''-''
     @ [isdigit, isdigit, isdigit, isdigit]
     @ lit '' '' @ [isdigit, isdigit] @ lit '':'' @ [isdigit, isdigit] @ lit '':''
     @ [isdigit, isdigit]
     @ lit '' '' @ [one_of ''-+''] @ [isdigit, isdigit] @ [isdigit, isdigit]
     @ lit [CHR 0x22]"

text \<open>
  \<^verbatim>\<open>.*\<close> is greedy and does not cross a newline: the match starts at the greatest
  offset, not after the first newline, from which the rest of the pattern matches.
\<close>

fun search_back :: "nat \<Rightarrow> string \<Rightarrow> nat option" where
  "search_back 0 s = (if match_here InternalDate s then Some 0 else None)"
| "search_back (Suc k) s =
     (if match_here InternalDate (drop (Suc k) s) then Some (Suc k) else search_back k s)"

definition slice :: "nat \<Rightarrow> nat \<Rightarrow> 'a list \<Rightarrow> 'a list" where
  "slice i j xs = take (j - i) (drop i xs)"

record date_groups =
  g_day :: string
  g_mon :: string
  g_year :: string
  g_hour :: string
  g_minute :: string
  g_sec :: string
  g_zonen :: string
  g_zoneh :: string
  g_zonem :: string

definition InternalDate_match :: "string \<Rightarrow> date_groups option" where
  "InternalDate_match s =
     (case search_back (length (takeWhile (\<lambda>c. c \<noteq> CHR 0x0A) s)) s of
        None \<Rightarrow> None
      | Some k \<Rightarrow>
          (let d = drop (k + 14) s in
           Some \<lparr> g_day = slice 0 2 d, g_mon = slice 3 6 d, g_year = slice 7 11 d,
                  g_hour = slice 12 14 d, g_minute = slice 15 17 d, g_sec = slice 18 20 d,
                  g_zonen = slice 21 22 d, g_zoneh = slice 22 24 d, g_zonem = slice 24 26 d \<rparr>))"

definition Mon2num :: "(string \<times> nat) list" where
  "Mon2num = [(''Jan'', 1), (''Feb'', 2), (''Mar'', 3), (''Apr'', 4), (''May'', 5), (''Jun'', 6),
              (''Jul'', 7), (''Aug'', 8), (''Sep'', 9), (''Oct'', 10), (''Nov'', 11), (''Dec'', 12)]"

definition Mon2num_lookup :: "string \<Rightarrow> error + nat" where
  "Mon2num_lookup k = (case map_of Mon2num k of None \<Rightarrow> Inl (KeyError (repr_str k)) | Some n \<Rightarrow> Inr n)"

text \<open>
  The operand of \<^verbatim>\<open>%\<close>: a tuple on the right of a format with one conversion has
  to hold exactly one value, which is then the value formatted.
\<close>

fun format_arg :: "pval \<Rightarrow> error + pval" where
  "format_arg (PTuple []) = Inl (TypeError ''not enough arguments for format string'')"
| "format_arg (PTuple [v]) = Inr v"
| "format_arg (PTuple vs) = Inl (TypeError ''not all arguments converted during string formatting'')"
| "format_arg v = Inr v"

text \<open>\<^verbatim>\<open>ValueError("couldn't parse date %r" % date_string)\<close>.\<close>

definition couldnt_parse_date :: "pval \<Rightarrow> error" where
  "couldnt_parse_date a = ValueError (''couldn't parse date '' @ py_repr a)"

definition convert_INTERNALDATE :: "int \<Rightarrow> pval \<Rightarrow> error + datetime" where
  "convert_INTERNALDATE host date_string =
     bind (format_arg date_string) (\<lambda>a.
       case InternalDate_match (''INTERNALDATE '' @ [CHR 0x22] @ py_str a @ [CHR 0x22]) of
         None \<Rightarrow> Inl (couldnt_parse_date a)
       | Some mo \<Rightarrow>
           bind (int_of_str (g_zoneh mo)) (\<lambda>zh.
           bind (int_of_str (g_zonem mo)) (\<lambda>zm.
           let zm1 = zh * 60 + zm;
               zm2 = (if g_zonen mo = ''-'' then - zm1 else zm1) in
           bind (int_of_str (g_year mo)) (\<lambda>y.
           bind (Mon2num_lookup (g_mon mo)) (\<lambda>m.
           bind (int_of_str (g_day mo)) (\<lambda>d.
           bind (int_of_str (g_hour mo)) (\<lambda>hh.
           bind (int_of_str (g_minute mo)) (\<lambda>mi.
           bind (int_of_str (g_sec mo)) (\<lambda>ss.
           bind (datetime_new y m d hh mi ss) (\<lambda>dt.
             astimezone_naive dt zm2 host))))))))))"

section \<open>FETCH responses\<close>

text \<open>
  A value of the dictionary of one message is a parsed value or, under
  \<^verbatim>\<open>INTERNALDATE\<close>, a \<^verbatim>\<open>datetime\<close>. Dictionaries are maps.
\<close>

datatype fval = Parsed pval | Date datetime

type_synonym msg_data = "string \<rightharpoonup> fval"

type_synonym fetch_table = "int \<rightharpoonup> msg_data"

text \<open>\<^verbatim>\<open>ParseError('%s: %s' % (error_text, repr(value)))\<close>.\<close>

definition not_an_int :: "string \<Rightarrow> pval \<Rightarrow> error" where
  "not_an_int error_text v = ParseError (error_text @ '': '' @ py_repr v)"

definition int_or_error :: "pval \<Rightarrow> string \<Rightarrow> error + int" where
  "int_or_error v error_text =
     (case py_int v of
        Inl (TypeError m) \<Rightarrow> Inl (not_an_int error_text v)
      | Inl (ValueError m) \<Rightarrow> Inl (not_an_int error_text v)
      | Inl e \<Rightarrow> Inl e
      | Inr i \<Rightarrow> Inr i)"

definition no_attribute :: "string \<Rightarrow> string \<Rightarrow> error" where
  "no_attribute type_name attr =
     AttributeError (squote type_name @ '' object has no attribute '' @ squote attr)"

fun py_upper :: "pval \<Rightarrow> error + string" where
  "py_upper (PStr s) = Inr (str_upper s)"
| "py_upper PNone = Inl (no_attribute ''NoneType'' ''upper'')"
| "py_upper (PInt i) = Inl (no_attribute ''int'' ''upper'')"
| "py_upper (PTuple vs) = Inl (no_attribute ''tuple'' ''upper'')"

text \<open>
  The \<^verbatim>\<open>for\<close> loop over the items of one message, two at a time; its state is
  \<^verbatim>\<open>msg_id\<close> and \<^verbatim>\<open>msg_data\<close>. The loop runs on a tuple of even length only; on a
  single last item \<^verbatim>\<open>msg_response[i+1]\<close> would be out of range.
\<close>

fun fetch_items :: "int \<Rightarrow> pval list \<Rightarrow> int \<times> msg_data \<Rightarrow> error + (int \<times> msg_data)" where
  "fetch_items host [] st = Inr st"
| "fetch_items host [w] st =
     bind (py_upper w) (\<lambda>word. Inl (IndexError ''tuple index out of range''))"
| "fetch_items host (w # v # rest) (msg_id, msg_data) =
     bind (py_upper w) (\<lambda>word.
       if word = ''UID'' then
         bind (int_or_error v ''invalid UID'') (\<lambda>uid. fetch_items host rest (uid, msg_data))
       else if word = ''INTERNALDATE'' then
         bind (convert_INTERNALDATE host v) (\<lambda>dt.
           fetch_items host rest (msg_id, msg_data(word \<mapsto> Date dt)))
       else fetch_items host rest (msg_id, msg_data(word \<mapsto> Parsed v)))"

text \<open>
  What the body of the \<^verbatim>\<open>while True\<close> loop of \<^verbatim>\<open>parse_fetch_response\<close> does with
  \<^verbatim>\<open>msg_response\<close> once \<^verbatim>\<open>msg_id\<close> is known: the two checks, the initial
  \<^verbatim>\<open>msg_data\<close> and the loop over the items. It gives the key and the dictionary that
  the body then stores.
\<close>

definition uneven_items :: "pval \<Rightarrow> error" where
  "uneven_items msg_response =
     ParseError (''uneven number of response items: '' @ py_repr msg_response)"

definition bad_response_type :: "pval \<Rightarrow> error" where
  "bad_response_type msg_response = ParseError (''bad response type: '' @ py_repr msg_response)"

definition fetch_message :: "int \<Rightarrow> int \<Rightarrow> pval \<Rightarrow> error + (int \<times> msg_data)" where
  "fetch_message host msg_id msg_response =
     (case msg_response of
        PTuple items \<Rightarrow>
          if odd (length items) then Inl (uneven_items msg_response)
          else fetch_items host items (msg_id, [''SEQ'' \<mapsto> Parsed (PInt msg_id)])
      | _ \<Rightarrow> Inl (bad_response_type msg_response))"

text \<open>
  The \<^verbatim>\<open>while True\<close> loop, which draws the values from the generator one at a
  time; its state is the generator and \<^verbatim>\<open>parsed_response\<close>.
\<close>

function fetch_loop :: "int \<Rightarrow> token list \<Rightarrow> fetch_table \<Rightarrow> error + fetch_table" where
  "fetch_loop host src parsed_response =
     (case gen_next src of
        Inl e \<Rightarrow> Inl e
      | Inr None \<Rightarrow> Inr parsed_response
      | Inr (Some (v, src1)) \<Rightarrow>
          bind (int_or_error v ''invalid message ID'') (\<lambda>msg_id.
            case gen_next src1 of
              Inl e \<Rightarrow> Inl e
            | Inr None \<Rightarrow> Inl (ParseError ''unexpected EOF'')
            | Inr (Some (msg_response, src2)) \<Rightarrow>
                bind (fetch_message host msg_id msg_response) (\<lambda>(key, msg_data).
                  fetch_loop host src2 (parsed_response(key \<mapsto> msg_data)))))"
  by pat_completeness auto
termination
  by (relation "measure (\<lambda>(host, src, t). length src)") (auto dest!: gen_next_length)

declare fetch_loop.simps [simp del]

definition parse_fetch_response :: "int \<Rightarrow> token list \<Rightarrow> error + fetch_table" where
  "parse_fetch_response host src = fetch_loop host src Map.empty"

section \<open>Notions used in the statements\<close>

text \<open>The items of a tuple two at a time: the messages of a batch, the fields of a message.\<close>

fun pairs :: "'a list \<Rightarrow> ('a \<times> 'a) list" where
  "pairs (a # b # rest) = (a, b) # pairs rest"
| "pairs rest = []"

text \<open>The upper-cased names of the fields of a message, and the values of its \<^verbatim>\<open>UID\<close> fields.\<close>

definition field_names :: "pval list \<Rightarrow> string set" where
  "field_names items =
     set (List.map_filter (\<lambda>(w, v). case py_upper w of Inl e \<Rightarrow> None | Inr n \<Rightarrow> Some n) (pairs items))"

definition uid_values :: "pval list \<Rightarrow> pval list" where
  "uid_values items = map snd (filter (\<lambda>(w, v). py_upper w = Inr ''UID'') (pairs items))"

text \<open>
  The loop of \<^verbatim>\<open>parse_fetch_response\<close> run on values that are already parsed, in
  place of the generator. On a source that parses as a whole it is the loop itself
  (\<open>fetch_loop_values\<close> below).
\<close>

fun fetch_values :: "int \<Rightarrow> pval list \<Rightarrow> fetch_table \<Rightarrow> error + fetch_table" where
  "fetch_values host [] T = Inr T"
| "fetch_values host [v] T =
     bind (int_or_error v ''invalid message ID'') (\<lambda>msg_id. Inl (ParseError ''unexpected EOF''))"
| "fetch_values host (v # r # rest) T =
     bind (int_or_error v ''invalid message ID'') (\<lambda>msg_id.
       bind (fetch_message host msg_id r) (\<lambda>(key, msg_data).
         fetch_values host rest (T(key \<mapsto> msg_data))))"

text \<open>
  The nesting depth at the end of a run of tokens that starts at depth \<open>d\<close>: a
  \<^verbatim>\<open>(\<close> opens a tuple, a \<^verbatim>\<open>)\<close> closes the innermost open one, and a \<^verbatim>\<open>)\<close> outside
  every tuple closes nothing. A source holds an unmatched \<^verbatim>\<open>(\<close> exactly when its
  depth from 0 is positive.
\<close>

fun depth_after :: "nat \<Rightarrow> string list \<Rightarrow> nat" where
  "depth_after d [] = d"
| "depth_after d (t # ts) =
     (if t = ''('' then depth_after (Suc d) ts
      else if t = '')'' then depth_after (d - 1) ts
      else depth_after d ts)"

text \<open>A token that \<^verbatim>\<open>atom\<close> accepts: a parenthesis, or one that it turns into a value.\<close>

definition token_ok :: "token \<Rightarrow> bool" where
  "token_ok t \<longleftrightarrow> fst t = ''('' \<or> (case atom [] t of Inl e \<Rightarrow> False | Inr r \<Rightarrow> True)"

section \<open>Properties\<close>

text \<open>Induction over a list two items at a time.\<close>

lemma pairs_induct [case_names 1 2 3]:
  assumes "\<And>a b rest. P rest \<Longrightarrow> P (a # b # rest)" "P []" "\<And>a. P [a]"
  shows "P xs"
  using assms by (induct xs rule: pairs.induct) auto

subsection \<open>Numbers in strings\<close>

lemma isdigit_not_space: "isdigit c \<Longrightarrow> \<not> isspace c"
  by (auto simp: isdigit_def isspace_def)

lemma isdigit_not_sign: "isdigit c \<Longrightarrow> c \<noteq> CHR ''+'' \<and> c \<noteq> CHR ''-''"
  by (auto simp: isdigit_def)

lemma int_of_str_digits:
  assumes "str_isdigit ds"
  shows "int_of_str ds = Inr (int (decimal_value ds))"
proof -
  from assms obtain c cs where ds: "ds = c # cs" and c: "isdigit c" and all: "\<forall>x\<in>set ds. isdigit x"
    by (cases ds) (auto simp: str_isdigit_def list_all_iff)
  have s1: "dropWhile isspace ds = ds"
    using isdigit_not_space[OF c] by (simp add: ds)
  have tw: "takeWhile isdigit ds = ds" and dw: "dropWhile isdigit ds = []"
    using all by simp_all
  have sign: "(case ds of [] \<Rightarrow> ds | c # r \<Rightarrow> if c = CHR ''+'' \<or> c = CHR ''-'' then r else ds) = ds"
    and neg: "(case ds of [] \<Rightarrow> False | c # x \<Rightarrow> c = CHR ''-'') = False"
    using isdigit_not_sign[OF c] by (simp_all add: ds)
  have ne: "ds \<noteq> []" by (simp add: ds)
  show ?thesis
    unfolding int_of_str_def Let_def s1 sign neg tw dw using ne by simp
qed

subsection \<open>Literals\<close>

text \<open>
  Claim C5. When \<^verbatim>\<open>atom\<close> reads a literal token \<^verbatim>\<open>{N}\<close>, \<open>N\<close> a run of decimal
  digits: with no payload bound to it, it raises the \<open>ParseError\<close> ``No literal
  corresponds to'' the token; with a payload whose length is not \<open>N\<close>, it raises the
  \<open>ParseError\<close> ``Expecting literal of size \<open>N\<close>, got'' the length of the payload;
  and only a payload of length exactly \<open>N\<close> is returned, whole and unchanged, with the
  token source untouched.
\<close>

theorem literal_length_checked:
  assumes "str_isdigit ds"
  shows "atom src (''{'' @ ds @ ''}'', None)
           = Inl (ParseError (''No literal corresponds to '' @ repr_str (''{'' @ ds @ ''}'')))
       \<and> (\<forall>payload. length payload \<noteq> decimal_value ds \<longrightarrow>
            atom src (''{'' @ ds @ ''}'', Some payload)
              = Inl (ParseError (''Expecting literal of size '' @ show_int (int (decimal_value ds))
                       @ '', got '' @ show_int (int (length payload)))))
       \<and> (\<forall>payload. length payload = decimal_value ds \<longrightarrow>
            atom src (''{'' @ ds @ ''}'', Some payload) = Inr (PStr payload, src))"
proof -
  define tok where "tok = ''{'' @ ds @ ''}''"
  have shape: "tok \<noteq> ''(''" "tok \<noteq> ''NIL''" "tok \<noteq> []" "hd tok = CHR ''{''"
    and inner: "butlast (tl tok) = ds"
    by (simp_all add: tok_def butlast_append)
  have len: "int_of_str (butlast (tl tok)) = Inr (int (decimal_value ds))"
    using int_of_str_digits[OF assms] by (simp add: inner)
  have "atom src (tok, None) = Inl (ParseError (''No literal corresponds to '' @ repr_str tok))"
    by (simp add: atom.simps shape len)
  moreover have "atom src (tok, Some payload)
      = Inl (ParseError (''Expecting literal of size '' @ show_int (int (decimal_value ds))
               @ '', got '' @ show_int (int (length payload))))"
    if "length payload \<noteq> decimal_value ds" for payload
    using that by (simp add: atom.simps shape len)
  moreover have "atom src (tok, Some payload) = Inr (PStr payload, src)"
    if "length payload = decimal_value ds" for payload
    using that by (simp add: atom.simps shape len)
  ultimately show ?thesis unfolding tok_def by blast
qed

theorem literal_length_checked_witness:
  "str_isdigit ''3''
   \<and> atom [] (''{3}'', None) = Inl (ParseError (''No literal corresponds to '' @ repr_str ''{3}''))
   \<and> atom [] (''{3}'', Some ''abcd'') = Inl (ParseError ''Expecting literal of size 3, got 4'')
   \<and> atom [] (''{3}'', Some ''abc'') = Inr (PStr ''abc'', [])"
proof -
  have d: "str_isdigit ''3''" by (simp add: str_isdigit_def isdigit_def)
  have v: "decimal_value ''3'' = 3" by (simp add: decimal_value_def digit_value_def)
  have s: "show_int 3 = ''3''" "show_int 4 = ''4''" by (simp_all add: show_int_def digit_char_def)
  show ?thesis
    using literal_length_checked[OF d, of "[]"] d v s by simp
qed

subsection \<open>The parser and its token source\<close>

lemma atom_not_open:
  "tok \<noteq> ''('' \<Longrightarrow> atom src (tok, l) = map_sum id (\<lambda>(v, r). (v, src)) (atom [] (tok, l))"
  by (simp add: atom.simps split: sum.splits option.splits)

lemma atom_open: "atom src (''('', l) = atom_loop src []"
  by (simp add: atom.simps)

lemma atom_append:
  "atom src t = Inr (v, src') \<Longrightarrow> atom (src @ extra) t = Inr (v, src' @ extra)"
  "atom_loop src out = Inr (v, src') \<Longrightarrow> atom_loop (src @ extra) out = Inr (v, src' @ extra)"
proof (induct src t and src out arbitrary: v src' and v src' rule: atom_atom_loop.induct)
  case (1 src tok lit)
  show ?case
  proof (cases "tok = ''(''")
    case True
    with 1 show ?thesis by (simp add: atom.simps)
  next
    case False
    with 1(2) show ?thesis
      by (cases "atom [] (tok, lit)")
         (auto simp: atom_not_open[OF False, of src] atom_not_open[OF False, of "src @ extra"])
  qed
next
  case (2 out)
  then show ?case by simp
next
  case (3 tok lit src out)
  show ?case
  proof (cases "tok = '')''")
    case True
    with 3(3) show ?thesis by simp
  next
    case False
    with 3(3) obtain v1 s1 where a: "atom src (tok, lit) = Inr (v1, s1)"
      and l: "atom_loop s1 (out @ [v1]) = Inr (v, src')"
      by (auto split: sum.splits)
    from 3(1)[OF False a] have "atom (src @ extra) (tok, lit) = Inr (v1, s1 @ extra)" .
    moreover from 3(2)[OF False a refl l] have "atom_loop (s1 @ extra) (out @ [v1]) = Inr (v, src' @ extra)" .
    ultimately show ?thesis using False by simp
  qed
qed

lemma gen_next_append:
  assumes "gen_next src = Inr (Some (v, src'))"
  shows "gen_next (src @ extra) = Inr (Some (v, src' @ extra))"
proof (cases src)
  case Nil
  with assms show ?thesis by (simp add: gen_next_def)
next
  case (Cons t rest)
  obtain tok l where t: "t = (tok, l)" by (cases t)
  from assms have "atom rest (tok, l) = Inr (v, src')"
    by (auto simp: gen_next_def Cons t split: sum.splits error.splits)
  from atom_append(1)[OF this, of extra] show ?thesis
    by (simp add: gen_next_def Cons t)
qed

lemma gen_next_Nil [simp]: "gen_next [] = Inr None"
  by (simp add: gen_next_def)

lemma gen_next_None: "gen_next src = Inr None \<longleftrightarrow> src = []"
  by (cases src) (auto simp: gen_next_def split: sum.splits error.splits)

text \<open>Depth bookkeeping.\<close>

lemma atom_depth:
  "atom src t = Inr (v, src') \<Longrightarrow> fst t \<noteq> '')'' \<Longrightarrow>
     depth_after d (fst t # map fst src) = depth_after d (map fst src')"
  "atom_loop src out = Inr (v, src') \<Longrightarrow>
     depth_after (Suc d) (map fst src) = depth_after d (map fst src')"
proof (induct src t and src out arbitrary: v src' d and v src' d rule: atom_atom_loop.induct)
  case (1 src tok lit)
  show ?case
  proof (cases "tok = ''(''")
    case True
    with 1 show ?thesis by (simp add: atom.simps)
  next
    case False
    with 1(2,3) show ?thesis
      by (cases "atom [] (tok, lit)") (auto simp: atom_not_open[OF False, of src])
  qed
next
  case (2 out)
  then show ?case by simp
next
  case (3 tok lit src out)
  show ?case
  proof (cases "tok = '')''")
    case True
    with 3(3) show ?thesis by simp
  next
    case False
    with 3(3) obtain v1 s1 where a: "atom src (tok, lit) = Inr (v1, s1)"
      and l: "atom_loop s1 (out @ [v1]) = Inr (v, src')"
      by (auto split: sum.splits)
    from 3(1)[OF False a, of "Suc d"] False
    have "depth_after (Suc d) (tok # map fst src) = depth_after (Suc d) (map fst s1)" by simp
    moreover from 3(2)[OF False a refl l]
    have "depth_after (Suc d) (map fst s1) = depth_after d (map fst src')" .
    ultimately show ?thesis by simp
  qed
qed

lemma gen_parsed_response_depth:
  "gen_parsed_response src = Inr vs \<Longrightarrow> depth_after 0 (map fst src) = 0"
proof (induct src arbitrary: vs rule: gen_parsed_response.induct)
  case (1 src)
  show ?case
  proof (cases src)
    case Nil
    then show ?thesis by simp
  next
    case (Cons t rest)
    obtain tok l where t: "t = (tok, l)" by (cases t)
    from 1(2) obtain v s1 vs1 where g: "gen_next src = Inr (Some (v, s1))"
      and r: "gen_parsed_response s1 = Inr vs1"
      using Cons
      by (subst (asm) gen_parsed_response.simps) (auto simp: gen_next_None split: sum.splits option.splits)
    from g have a: "atom rest (tok, l) = Inr (v, s1)"
      by (auto simp: gen_next_def Cons t split: sum.splits error.splits)
    have "depth_after 0 (map fst src) = depth_after 0 (map fst s1)"
    proof (cases "tok = '')''")
      case True
      with a have "s1 = rest" by (simp add: atom.simps str_isdigit_def isdigit_def)
      with True show ?thesis by (simp add: Cons t)
    next
      case False
      with atom_depth(1)[OF a, of 0] show ?thesis by (simp add: Cons t)
    qed
    with 1(1)[OF g refl refl r] show ?thesis by simp
  qed
qed

subsection \<open>Tuples left open\<close>

lemma token_ok_atom:
  assumes "token_ok (tok, l)" "tok \<noteq> ''(''"
  obtains v where "atom src (tok, l) = Inr (v, src)"
proof -
  from assms obtain r where "atom [] (tok, l) = Inr r"
    by (auto simp: token_ok_def split: sum.splits)
  then show ?thesis
    using that by (cases r) (simp add: atom_not_open[OF assms(2), of src])
qed

lemma atom_drop:
  "atom src t = Inr (v, src') \<Longrightarrow> \<exists>n. src' = drop n src"
  "atom_loop src acc = Inr (v, src') \<Longrightarrow> \<exists>n. src' = drop n src"
proof (induct src t and src acc arbitrary: v src' and v src' rule: atom_atom_loop.induct)
  case (1 src tok lit)
  show ?case
  proof (cases "tok = ''(''")
    case True
    with 1 show ?thesis by (simp add: atom.simps)
  next
    case False
    with 1(2) have "src' = src"
      by (cases "atom [] (tok, lit)") (auto simp: atom_not_open[OF False, of src])
    then show ?thesis by (intro exI[of _ 0]) simp
  qed
next
  case (2 acc)
  then show ?case by simp
next
  case (3 tok lit src acc)
  show ?case
  proof (cases "tok = '')''")
    case True
    with 3(3) have "src' = drop 1 ((tok, lit) # src)" by simp
    then show ?thesis by blast
  next
    case False
    with 3(3) obtain v1 s1 where a: "atom src (tok, lit) = Inr (v1, s1)"
      and l: "atom_loop s1 (acc @ [v1]) = Inr (v, src')"
      by (auto split: sum.splits)
    from 3(1)[OF False a] obtain n where n: "s1 = drop n src" by blast
    from 3(2)[OF False a refl l] obtain k where "src' = drop k s1" by blast
    with n have "src' = drop (Suc (k + n)) ((tok, lit) # src)" by (simp add: add.commute)
    then show ?thesis by blast
  qed
qed

lemma atom_rest_all:
  assumes "atom src t = Inr (v, src')" "list_all P src"
  shows "list_all P src'"
proof -
  from atom_drop(1)[OF assms(1)] obtain n where "src' = drop n src" by blast
  with assms(2) show ?thesis
    by (auto simp: list_all_iff dest: in_set_dropD)
qed

lemma ok_errors:
  "list_all token_ok src \<Longrightarrow> token_ok t \<Longrightarrow> atom src t = Inl e \<Longrightarrow> \<exists>out. e = tuple_incomplete out"
  "list_all token_ok src \<Longrightarrow> atom_loop src acc = Inl e \<Longrightarrow> \<exists>out. e = tuple_incomplete out"
proof (induct src t and src acc arbitrary: e and e rule: atom_atom_loop.induct)
  case (1 src tok lit)
  show ?case
  proof (cases "tok = ''(''")
    case True
    with 1 show ?thesis by (simp add: atom.simps)
  next
    case False
    from token_ok_atom[OF 1(3) False, of src] 1(4) show ?thesis by auto
  qed
next
  case (2 acc)
  then show ?case by auto
next
  case (3 tok lit src acc)
  from 3(3) have ok: "token_ok (tok, lit)" "list_all token_ok src" by simp_all
  show ?case
  proof (cases "tok = '')''")
    case True
    with 3(4) show ?thesis by simp
  next
    case False
    show ?thesis
    proof (cases "atom src (tok, lit)")
      case (Inl e1)
      with 3(4) False have "e = e1" by simp
      with 3(1)[OF False ok(2) ok(1) Inl] show ?thesis by simp
    next
      case (Inr r)
      obtain v1 s1 where r: "r = (v1, s1)" by (cases r)
      have "list_all token_ok s1"
        using atom_rest_all[OF Inr[unfolded r] ok(2)] .
      moreover from 3(4) False Inr r have "atom_loop s1 (acc @ [v1]) = Inl e" by simp
      ultimately show ?thesis using 3(2)[OF False Inr[unfolded r] refl] by blast
    qed
  qed
qed

lemma gen_next_ok_error:
  assumes "list_all token_ok src" "gen_next src = Inl e"
  shows "\<exists>out. e = tuple_incomplete out"
proof (cases src)
  case Nil
  with assms(2) show ?thesis by simp
next
  case (Cons t rest)
  obtain tok l where t: "t = (tok, l)" by (cases t)
  from assms(2) obtain e0 where a: "atom rest (tok, l) = Inl e0"
    by (auto simp: gen_next_def Cons t split: sum.splits)
  from assms(1) have "list_all token_ok rest" "token_ok (tok, l)" by (simp_all add: Cons t)
  from ok_errors(1)[OF this a] obtain out where e0: "e0 = tuple_incomplete out" by blast
  with assms(2) a have "e = tuple_incomplete out"
    by (simp add: gen_next_def Cons t tuple_incomplete_def)
  then show ?thesis by blast
qed

lemma gen_next_rest_all:
  assumes "gen_next src = Inr (Some (v, src'))" "list_all P src"
  shows "list_all P src'"
proof (cases src)
  case Nil
  with assms(1) show ?thesis by simp
next
  case (Cons t rest)
  obtain tok l where t: "t = (tok, l)" by (cases t)
  from assms(1) have "atom rest (tok, l) = Inr (v, src')"
    by (auto simp: gen_next_def Cons t split: sum.splits error.splits)
  from atom_rest_all[OF this] assms(2) show ?thesis by (simp add: Cons)
qed

lemma gen_parsed_response_ok_error:
  "list_all token_ok src \<Longrightarrow> gen_parsed_response src = Inl e \<Longrightarrow> \<exists>out. e = tuple_incomplete out"
proof (induct src arbitrary: e rule: gen_parsed_response.induct)
  case (1 src)
  show ?case
  proof (cases "gen_next src")
    case (Inl e0)
    with 1(3) have "e = e0" by (subst (asm) gen_parsed_response.simps) simp
    with gen_next_ok_error[OF 1(2) Inl] show ?thesis by simp
  next
    case (Inr r)
    show ?thesis
    proof (cases r)
      case None
      with 1(3) Inr show ?thesis by (subst (asm) gen_parsed_response.simps) simp
    next
      case (Some p)
      obtain v s1 where p: "p = (v, s1)" by (cases p)
      from 1(3) Inr Some p have "gen_parsed_response s1 = Inl e"
        by (subst (asm) gen_parsed_response.simps) (simp split: sum.splits)
      moreover have "list_all token_ok s1"
        using gen_next_rest_all[OF Inr[unfolded Some p] 1(2)] .
      ultimately show ?thesis using 1(1)[OF Inr Some p[symmetric]] by blast
    qed
  qed
qed

lemma unmatched_never_returns:
  assumes "0 < depth_after 0 (map fst src)"
  shows "\<exists>e. gen_parsed_response src = Inl e"
proof (cases "gen_parsed_response src")
  case (Inl e)
  then show ?thesis by blast
next
  case (Inr vs)
  from gen_parsed_response_depth[OF Inr] assms show ?thesis by simp
qed

text \<open>A call that leaves tokens in the source has not looked at the last one.\<close>

lemma atom_unappend:
  "atom (src @ [x]) t = Inr (v, s1) \<Longrightarrow> s1 \<noteq> [] \<Longrightarrow>
     \<exists>s1'. s1 = s1' @ [x] \<and> atom src t = Inr (v, s1')"
  "atom_loop (src @ [x]) acc = Inr (v, s1) \<Longrightarrow> s1 \<noteq> [] \<Longrightarrow>
     \<exists>s1'. s1 = s1' @ [x] \<and> atom_loop src acc = Inr (v, s1')"
proof (induct src t and src acc arbitrary: v s1 and v s1 rule: atom_atom_loop.induct)
  case (1 src tok lit)
  show ?case
  proof (cases "tok = ''(''")
    case True
    with 1 show ?thesis by (simp add: atom.simps)
  next
    case False
    with 1(2) show ?thesis
      by (cases "atom [] (tok, lit)")
         (auto simp: atom_not_open[OF False, of src] atom_not_open[OF False, of "src @ [x]"])
  qed
next
  case (2 acc)
  obtain tok l where x: "x = (tok, l)" by (cases x)
  show ?case
  proof (cases "tok = '')''")
    case True
    with 2 show ?thesis by (simp add: x)
  next
    case False
    show ?thesis
    proof (cases "atom [] (tok, l)")
      case (Inl e)
      with 2 False show ?thesis by (simp add: x)
    next
      case (Inr r)
      obtain v1 r1 where r: "r = (v1, r1)" by (cases r)
      from atom_length(1)[OF Inr[unfolded r]] have "r1 = []" by simp
      with 2 False Inr r show ?thesis by (simp add: x)
    qed
  qed
next
  case (3 tok lit src acc)
  show ?case
  proof (cases "tok = '')''")
    case True
    with 3(3) show ?thesis by auto
  next
    case False
    with 3(3) obtain v1 t1 where a: "atom (src @ [x]) (tok, lit) = Inr (v1, t1)"
      and l: "atom_loop t1 (acc @ [v1]) = Inr (v, s1)"
      by (auto split: sum.splits)
    from atom_length(2)[OF l] 3(4) have "t1 \<noteq> []" by auto
    from 3(1)[OF False a this] obtain t1' where t1: "t1 = t1' @ [x]"
      and a': "atom src (tok, lit) = Inr (v1, t1')" by blast
    from 3(2)[OF False a' refl l[unfolded t1] 3(4)] obtain s1' where "s1 = s1' @ [x]"
      and "atom_loop t1' (acc @ [v1]) = Inr (v, s1')" by blast
    with a' False show ?thesis by simp
  qed
qed

text \<open>
  If closing the tuple after \<open>inner\<close> gives the tuple of \<open>out\<close>, then the loop that
  finds the source at its end after \<open>inner\<close> fails with \<open>out\<close> in its message.
\<close>

lemma atom_loop_unclosed:
  "atom_loop (inner @ [('')'', l')]) acc = Inr (PTuple out, []) \<Longrightarrow>
     atom_loop inner acc = Inl (tuple_incomplete out)"
proof (induct "length inner" arbitrary: inner acc rule: less_induct)
  case less
  show ?case
  proof (cases inner)
    case Nil
    with less(2) show ?thesis by simp
  next
    case (Cons t src)
    obtain tok lit where t: "t = (tok, lit)" by (cases t)
    show ?thesis
    proof (cases "tok = '')''")
      case True
      with less(2) show ?thesis by (simp add: Cons t)
    next
      case False
      with less(2) obtain v1 t1 where a: "atom (src @ [('')'', l')]) (tok, lit) = Inr (v1, t1)"
        and l: "atom_loop t1 (acc @ [v1]) = Inr (PTuple out, [])"
        by (auto simp: Cons t split: sum.splits)
      from l have "t1 \<noteq> []" by auto
      from atom_unappend(1)[OF a this] obtain t1' where t1: "t1 = t1' @ [('')'', l')]"
        and a': "atom src (tok, lit) = Inr (v1, t1')" by blast
      from atom_length(1)[OF a'] have "length t1' < length inner" by (simp add: Cons)
      from less(1)[OF this l[unfolded t1]] a' False show ?thesis by (simp add: Cons t)
    qed
  qed
qed

text \<open>
  Tokens that \<^verbatim>\<open>atom\<close> accepts, in front of a \<^verbatim>\<open>(\<close> whose loop fails, either pass
  the failure on or hand the same rest of the source back.
\<close>

lemma atom_before_failure:
  "src = pre @ (''('', l) # inner \<Longrightarrow> list_all token_ok pre \<Longrightarrow> token_ok t \<Longrightarrow>
     atom_loop inner [] = Inl e \<Longrightarrow>
     atom src t = Inl e \<or> (\<exists>v pre'. atom src t = Inr (v, pre' @ (''('', l) # inner) \<and> list_all token_ok pre')"
  "src = pre @ (''('', l) # inner \<Longrightarrow> list_all token_ok pre \<Longrightarrow>
     atom_loop inner [] = Inl e \<Longrightarrow>
     atom_loop src acc = Inl e \<or> (\<exists>v pre'. atom_loop src acc = Inr (v, pre' @ (''('', l) # inner) \<and> list_all token_ok pre')"
proof (induct src t and src acc arbitrary: pre and pre rule: atom_atom_loop.induct)
  case (1 src tok lit)
  show ?case
  proof (cases "tok = ''(''")
    case True
    with 1(1)[OF True 1(2,3,5)] show ?thesis by (simp add: atom.simps)
  next
    case False
    from token_ok_atom[OF 1(4) False, of src] 1(2,3) show ?thesis by auto
  qed
next
  case (2 acc)
  then show ?case by simp
next
  case (3 tok lit src acc)
  show ?case
  proof (cases pre)
    case Nil
    with 3(3) have "tok = ''(''" "lit = l" "src = inner" by simp_all
    with 3(5) show ?thesis by (simp add: atom.simps)
  next
    case (Cons p pre1)
    with 3(3,4) have src: "src = pre1 @ (''('', l) # inner" and p: "p = (tok, lit)"
      and ok: "token_ok (tok, lit)" "list_all token_ok pre1" by simp_all
    show ?thesis
    proof (cases "tok = '')''")
      case True
      with src ok show ?thesis by auto
    next
      case False
      from 3(1)[OF False src ok(2) ok(1) 3(5)] show ?thesis
      proof
        assume "atom src (tok, lit) = Inl e"
        with False show ?thesis by simp
      next
        assume "\<exists>v pre'. atom src (tok, lit) = Inr (v, pre' @ (''('', l) # inner) \<and> list_all token_ok pre'"
        then obtain v1 pre' where a: "atom src (tok, lit) = Inr (v1, pre' @ (''('', l) # inner)"
          and ok': "list_all token_ok pre'" by blast
        from 3(2)[OF False a refl refl ok' 3(5)] a False show ?thesis by simp
      qed
    qed
  qed
qed

lemma gen_before_failure:
  "list_all token_ok pre \<Longrightarrow> atom_loop inner [] = Inl (tuple_incomplete out) \<Longrightarrow>
     gen_parsed_response (pre @ (''('', l) # inner) = Inl (tuple_incomplete out)"
proof (induct "length pre" arbitrary: pre rule: less_induct)
  case less
  show ?case
  proof (cases pre)
    case Nil
    with less(3) show ?thesis
      by (subst gen_parsed_response.simps) (simp add: gen_next_def atom.simps tuple_incomplete_def)
  next
    case (Cons p pre1)
    obtain tok lit where p: "p = (tok, lit)" by (cases p)
    from less(2) have ok: "token_ok (tok, lit)" "list_all token_ok pre1" by (simp_all add: Cons p)
    from atom_before_failure(1)[OF refl ok(2) ok(1) less(3), of l]
    show ?thesis
    proof
      assume "atom (pre1 @ (''('', l) # inner) (tok, lit) = Inl (tuple_incomplete out)"
      then show ?thesis
        by (subst gen_parsed_response.simps) (simp add: gen_next_def Cons p tuple_incomplete_def)
    next
      assume "\<exists>v pre'. atom (pre1 @ (''('', l) # inner) (tok, lit) = Inr (v, pre' @ (''('', l) # inner)
                \<and> list_all token_ok pre'"
      then obtain v pre' where a: "atom (pre1 @ (''('', l) # inner) (tok, lit) = Inr (v, pre' @ (''('', l) # inner)"
        and ok': "list_all token_ok pre'" by blast
      from atom_length(1)[OF a] have "length pre' < length pre" by (simp add: Cons)
      from less(1)[OF this ok' less(3)] a show ?thesis
        by (subst gen_parsed_response.simps) (simp add: gen_next_def Cons p)
    qed
  qed
qed

subsection \<open>Unmatched parentheses\<close>



subsection \<open>The loop over the messages\<close>

lemma bind_simps [simp]:
  "bind (Inl e) f = Inl e" "bind (Inr x) f = f x"
  by (simp_all add: bind_def)

lemma bind_eq_Inr: "bind m f = Inr y \<longleftrightarrow> (\<exists>x. m = Inr x \<and> f x = Inr y)"
  by (cases m) simp_all

lemma gen_parsed_response_Nil [simp]: "gen_parsed_response [] = Inr []"
  by (subst gen_parsed_response.simps) simp

lemma gen_parsed_response_step:
  "gen_next src = Inr (Some (v, s1)) \<Longrightarrow>
     gen_parsed_response src = map_sum id ((#) v) (gen_parsed_response s1)"
  by (subst gen_parsed_response.simps) (simp split: sum.splits)

lemma gen_parsed_response_Cons:
  assumes "gen_parsed_response src = Inr (v # vs)"
  obtains s1 where "gen_next src = Inr (Some (v, s1))" "gen_parsed_response s1 = Inr vs"
  using assms
  by (subst (asm) gen_parsed_response.simps) (auto split: sum.splits option.splits)

lemma gen_parsed_response_empty:
  "gen_parsed_response src = Inr [] \<Longrightarrow> src = []"
  by (subst (asm) gen_parsed_response.simps) (auto simp: gen_next_None split: sum.splits option.splits)

lemma gen_parsed_response_append:
  "gen_parsed_response src = Inr vs \<Longrightarrow>
     gen_parsed_response (src @ rest) = map_sum id ((@) vs) (gen_parsed_response rest)"
proof (induct vs arbitrary: src)
  case Nil
  from gen_parsed_response_empty[OF Nil] show ?case
    by (cases "gen_parsed_response rest") simp_all
next
  case (Cons v vs)
  from gen_parsed_response_Cons[OF Cons(2)] obtain s1
    where g: "gen_next src = Inr (Some (v, s1))" and r: "gen_parsed_response s1 = Inr vs" by blast
  from gen_parsed_response_step[OF gen_next_append[OF g, of rest]] Cons(1)[OF r]
  show ?case by (cases "gen_parsed_response rest") simp_all
qed

lemma fetch_loop_Nil [simp]: "fetch_loop host [] T = Inr T"
  by (subst fetch_loop.simps) simp

lemma fetch_loop_step:
  "gen_next src = Inr (Some (v, s1)) \<Longrightarrow> gen_next s1 = Inr (Some (r, s2)) \<Longrightarrow>
     fetch_loop host src T =
       bind (int_or_error v ''invalid message ID'') (\<lambda>msg_id.
         bind (fetch_message host msg_id r) (\<lambda>(key, d). fetch_loop host s2 (T(key \<mapsto> d))))"
  by (subst fetch_loop.simps) (simp add: bind_def split: sum.splits)

lemma fetch_loop_bad_id:
  "gen_next src = Inr (Some (v, s1)) \<Longrightarrow> int_or_error v ''invalid message ID'' = Inl e \<Longrightarrow>
     fetch_loop host src T = Inl e"
  by (subst fetch_loop.simps) simp

lemma fetch_loop_bad_message:
  "gen_next src = Inr (Some (v, s1)) \<Longrightarrow> gen_next s1 = Inr (Some (r, s2)) \<Longrightarrow>
   int_or_error v ''invalid message ID'' = Inr msg_id \<Longrightarrow> fetch_message host msg_id r = Inl e \<Longrightarrow>
     fetch_loop host src T = Inl e"
  by (simp add: fetch_loop_step)

lemma fetch_loop_ok:
  "gen_next src = Inr (Some (v, s1)) \<Longrightarrow> gen_next s1 = Inr (Some (r, s2)) \<Longrightarrow>
   int_or_error v ''invalid message ID'' = Inr msg_id \<Longrightarrow> fetch_message host msg_id r = Inr (key, d) \<Longrightarrow>
     fetch_loop host src T = fetch_loop host s2 (T(key \<mapsto> d))"
  by (simp add: fetch_loop_step)

lemma fetch_values_bad_id:
  "int_or_error v ''invalid message ID'' = Inl e \<Longrightarrow> fetch_values host (v # vs) T = Inl e"
  by (cases vs) simp_all

lemma fetch_values_bad_message:
  "int_or_error v ''invalid message ID'' = Inr msg_id \<Longrightarrow> fetch_message host msg_id r = Inl e \<Longrightarrow>
     fetch_values host (v # r # rest) T = Inl e"
  by simp

lemma fetch_values_ok:
  "int_or_error v ''invalid message ID'' = Inr msg_id \<Longrightarrow> fetch_message host msg_id r = Inr (key, d) \<Longrightarrow>
     fetch_values host (v # r # rest) T = fetch_values host rest (T(key \<mapsto> d))"
  by simp

text \<open>One message of a batch: what can happen to it.\<close>

lemma message_cases:
  obtains (bad_id) e where "int_or_error v ''invalid message ID'' = Inl e"
  | (bad_message) msg_id e where "int_or_error v ''invalid message ID'' = Inr msg_id"
      "fetch_message host msg_id r = Inl e"
  | (ok) msg_id key d where "int_or_error v ''invalid message ID'' = Inr msg_id"
      "fetch_message host msg_id r = Inr (key, d)"
proof (cases "int_or_error v ''invalid message ID''")
  case (Inl e)
  then show ?thesis by (rule bad_id)
next
  case (Inr msg_id)
  show ?thesis
  proof (cases "fetch_message host msg_id r")
    case (Inl e)
    with Inr show ?thesis by (rule bad_message)
  next
    case Inr2: (Inr kd)
    with Inr show ?thesis by (cases kd) (auto intro: ok)
  qed
qed

text \<open>The loop on a source that parses as a whole.\<close>

lemma fetch_loop_values:
  "gen_parsed_response src = Inr vals \<Longrightarrow> fetch_loop host src T = fetch_values host vals T"
proof (induct vals arbitrary: src T rule: pairs_induct)
  case (1 v r rest)
  from gen_parsed_response_Cons[OF 1(2)] obtain s1
    where g1: "gen_next src = Inr (Some (v, s1))" and r1: "gen_parsed_response s1 = Inr (r # rest)"
    by blast
  from gen_parsed_response_Cons[OF r1] obtain s2
    where g2: "gen_next s1 = Inr (Some (r, s2))" and r2: "gen_parsed_response s2 = Inr rest"
    by blast
  show ?case
  proof (cases rule: message_cases[where v=v and host=host and r=r])
    case (bad_id e)
    then show ?thesis by (simp only: fetch_loop_bad_id[OF g1] fetch_values_bad_id)
  next
    case (bad_message msg_id e)
    then show ?thesis by (simp only: fetch_loop_bad_message[OF g1 g2] fetch_values_bad_message)
  next
    case (ok msg_id key d)
    then show ?thesis
      by (simp only: fetch_loop_ok[OF g1 g2 ok] fetch_values_ok[OF ok] 1(1)[OF r2])
  qed
next
  case 2
  from gen_parsed_response_empty[OF this] show ?case by simp
next
  case (3 v)
  from gen_parsed_response_Cons[OF this] obtain s1
    where g: "gen_next src = Inr (Some (v, s1))" and r: "gen_parsed_response s1 = Inr []" by blast
  from gen_parsed_response_empty[OF r] g show ?case
    by (subst fetch_loop.simps) (simp add: bind_def split: sum.splits)
qed

text \<open>A decoded batch is a source that parses as a whole.\<close>

lemma fetch_loop_parses:
  "fetch_loop host src T = Inr T' \<Longrightarrow> \<exists>vals. gen_parsed_response src = Inr vals"
proof (induct "length src" arbitrary: src T rule: less_induct)
  case less
  show ?case
  proof (cases "gen_next src")
    case (Inl e)
    with less(2) show ?thesis by (subst (asm) fetch_loop.simps) simp
  next
    case (Inr r)
    show ?thesis
    proof (cases r)
      case None
      with Inr have "src = []" by (simp add: gen_next_None)
      then show ?thesis by simp
    next
      case (Some p)
      obtain v s1 where p: "p = (v, s1)" by (cases p)
      note g1 = Inr[unfolded Some p]
      have "\<exists>r2 s2. gen_next s1 = Inr (Some (r2, s2))"
      proof (cases "gen_next s1")
        case (Inl e)
        with less(2) g1 show ?thesis
          by (subst (asm) fetch_loop.simps) (simp add: bind_def split: sum.splits)
      next
        case I: (Inr q)
        with less(2) g1 show ?thesis
          by (subst (asm) fetch_loop.simps) (cases q; simp add: bind_def split: sum.splits)
      qed
      then obtain r2 s2 where g2: "gen_next s1 = Inr (Some (r2, s2))" by blast
      from less(2)[unfolded fetch_loop_step[OF g1 g2]] obtain T2
        where l: "fetch_loop host s2 T2 = Inr T'"
        by (auto simp: bind_eq_Inr)
      from gen_next_length[OF g1] gen_next_length[OF g2] have "length s2 < length src" by simp
      from less(1)[OF this l] obtain vs where "gen_parsed_response s2 = Inr vs" by blast
      with gen_parsed_response_step[OF g1] gen_parsed_response_step[OF g2] show ?thesis by simp
    qed
  qed
qed

text \<open>Whole messages decoded before the rest of a source.\<close>

lemma fetch_values_append:
  "even (length vals) \<Longrightarrow>
     fetch_values host (vals @ more_vals) T = bind (fetch_values host vals T) (\<lambda>T1. fetch_values host more_vals T1)"
proof (induct vals arbitrary: T rule: pairs_induct)
  case (1 v r rest)
  from 1(2) have ev: "even (length rest)" by simp
  show ?case
  proof (cases rule: message_cases[where v=v and host=host and r=r])
    case (bad_id e)
    then show ?thesis by (simp add: fetch_values_bad_id)
  next
    case (bad_message msg_id e)
    then show ?thesis by simp
  next
    case (ok msg_id key d)
    show ?thesis
      unfolding append_Cons fetch_values_ok[OF ok] by (rule 1(1)[OF ev])
  qed
qed simp_all

lemma fetch_loop_append:
  assumes "gen_parsed_response src = Inr vals" "even (length vals)"
  shows "fetch_loop host (src @ rest) T = bind (fetch_values host vals T) (\<lambda>T1. fetch_loop host rest T1)"
  using assms
proof (induct vals arbitrary: src T rule: pairs_induct)
  case (1 v r vs)
  from gen_parsed_response_Cons[OF 1(2)] obtain s1
    where g1: "gen_next src = Inr (Some (v, s1))" and r1: "gen_parsed_response s1 = Inr (r # vs)"
    by blast
  from gen_parsed_response_Cons[OF r1] obtain s2
    where g2: "gen_next s1 = Inr (Some (r, s2))" and r2: "gen_parsed_response s2 = Inr vs"
    by blast
  from 1(3) have ev: "even (length vs)" by simp
  note g1' = gen_next_append[OF g1, of rest] and g2' = gen_next_append[OF g2, of rest]
  show ?case
  proof (cases rule: message_cases[where v=v and host=host and r=r])
    case (bad_id e)
    then show ?thesis by (simp add: fetch_loop_bad_id[OF g1'] fetch_values_bad_id)
  next
    case (bad_message msg_id e)
    then show ?thesis by (simp add: fetch_loop_bad_message[OF g1' g2'])
  next
    case (ok msg_id key d)
    show ?thesis
      unfolding fetch_loop_ok[OF g1' g2' ok] fetch_values_ok[OF ok] by (rule 1(1)[OF r2 ev])
  qed
next
  case 2
  from gen_parsed_response_empty[OF this(1)] show ?case by simp
next
  case (3 v)
  then show ?case by simp
qed

text \<open>The table that the loop starts from is only added to.\<close>

lemma fetch_values_from:
  "fetch_values host vals T = map_sum id ((++) T) (fetch_values host vals Map.empty)"
proof (induct vals arbitrary: T rule: pairs_induct)
  case (1 v r rest)
  show ?case
  proof (cases rule: message_cases[where v=v and host=host and r=r])
    case (bad_id e)
    then show ?thesis by (simp add: fetch_values_bad_id)
  next
    case (bad_message msg_id e)
    then show ?thesis by simp
  next
    case (ok msg_id key d)
    have a: "fetch_values host rest (T(key \<mapsto> d)) = map_sum id ((++) (T(key \<mapsto> d))) (fetch_values host rest Map.empty)"
      by (rule 1)
    have b: "fetch_values host rest [key \<mapsto> d] = map_sum id ((++) [key \<mapsto> d]) (fetch_values host rest Map.empty)"
      by (rule 1)
    have c: "T ++ ([key \<mapsto> d] ++ X) = T(key \<mapsto> d) ++ X" for X
      by (simp add: map_add_assoc[symmetric])
    show ?thesis
      unfolding fetch_values_ok[OF ok] a b
      by (cases "fetch_values host rest Map.empty") (simp_all add: c)
  qed
next
  case 2
  show ?case by simp
next
  case (3 v)
  show ?case by (cases "int_or_error v ''invalid message ID''") simp_all
qed

subsection \<open>The loop over the fields of a message\<close>

lemma field_names_simps [simp]:
  "field_names [] = {}" "field_names [w] = {}"
  "field_names (w # v # rest) =
     (case py_upper w of Inl e \<Rightarrow> field_names rest | Inr n \<Rightarrow> insert n (field_names rest))"
  by (simp_all add: field_names_def List.map_filter_simps split: sum.splits)

lemma uid_values_simps [simp]:
  "uid_values [] = []" "uid_values [w] = []"
  "uid_values (w # v # rest) =
     (if py_upper w = Inr ''UID'' then v # uid_values rest else uid_values rest)"
  by (simp_all add: uid_values_def)

lemma fetch_items_step:
  "fetch_items host (w # v # rest) (msg_id, msg_data) =
     (case py_upper w of
        Inl e \<Rightarrow> Inl e
      | Inr word \<Rightarrow>
          if word = ''UID'' then
            bind (int_or_error v ''invalid UID'') (\<lambda>uid. fetch_items host rest (uid, msg_data))
          else if word = ''INTERNALDATE'' then
            bind (convert_INTERNALDATE host v) (\<lambda>dt.
              fetch_items host rest (msg_id, msg_data(word \<mapsto> Date dt)))
          else fetch_items host rest (msg_id, msg_data(word \<mapsto> Parsed v)))"
  by (cases "py_upper w") simp_all

lemma if_Inl_Inr: "(if c then Inl a else Inr b) = Inl e \<Longrightarrow> e = a"
  by (cases c) simp_all

lemma int_of_str_error: "int_of_str s = Inl e \<Longrightarrow> e = invalid_literal s"
  unfolding int_of_str_def Let_def by (rule if_Inl_Inr)

lemma py_int_error: "py_int v = Inl e \<Longrightarrow> (\<exists>m. e = TypeError m) \<or> (\<exists>m. e = ValueError m)"
proof (cases v)
  case (PStr s)
  assume "py_int v = Inl e"
  with PStr have "e = invalid_literal s" by (simp add: int_of_str_error)
  then show ?thesis by (simp add: invalid_literal_def)
qed (auto simp: int_type_error_def)

lemma int_or_error_Inl:
  assumes "py_int v = Inl e"
  shows "int_or_error v txt = Inl (not_an_int txt v)"
  using py_int_error[OF assms] assms by (auto simp: int_or_error_def)

lemma int_or_error_Inr: "int_or_error v txt = Inr i \<longleftrightarrow> py_int v = Inr i"
proof (cases "py_int v")
  case (Inl e)
  from int_or_error_Inl[OF this] Inl show ?thesis by simp
next
  case (Inr j)
  then show ?thesis by (simp add: int_or_error_def)
qed

declare fetch_items.simps(3) [simp del]

text \<open>One field of a message that is decoded without error.\<close>

lemma fetch_items_Cons_ok:
  assumes "fetch_items host (w # v # rest) (k0, d0) = Inr (k, d)"
  obtains word k1 d1 where "py_upper w = Inr word" "fetch_items host rest (k1, d1) = Inr (k, d)"
    "(word = ''UID'' \<and> py_int v = Inr k1 \<and> d1 = d0)
     \<or> (word = ''INTERNALDATE'' \<and> k1 = k0 \<and> (\<exists>dt. convert_INTERNALDATE host v = Inr dt \<and> d1 = d0(word \<mapsto> Date dt)))
     \<or> (word \<noteq> ''UID'' \<and> word \<noteq> ''INTERNALDATE'' \<and> k1 = k0 \<and> d1 = d0(word \<mapsto> Parsed v))"
proof -
  from assms obtain word where w: "py_upper w = Inr word"
    by (cases "py_upper w") (simp_all add: fetch_items_step)
  consider (uid) "word = ''UID''" | (date) "word = ''INTERNALDATE''"
    | (other) "word \<noteq> ''UID''" "word \<noteq> ''INTERNALDATE''" by blast
  then show ?thesis
  proof cases
    case uid
    with assms w obtain u where "int_or_error v ''invalid UID'' = Inr u"
      and "fetch_items host rest (u, d0) = Inr (k, d)"
      by (auto simp: fetch_items_step bind_eq_Inr)
    with w uid show ?thesis by (intro that[of word u d0]) (auto simp: int_or_error_Inr)
  next
    case date
    with assms w obtain dt where "convert_INTERNALDATE host v = Inr dt"
      and "fetch_items host rest (k0, d0(word \<mapsto> Date dt)) = Inr (k, d)"
      by (auto simp: fetch_items_step bind_eq_Inr)
    with w date show ?thesis by (intro that[of word k0 "d0(word \<mapsto> Date dt)"]) auto
  next
    case other
    with assms w have "fetch_items host rest (k0, d0(word \<mapsto> Parsed v)) = Inr (k, d)"
      by (auto simp: fetch_items_step)
    with w other show ?thesis by (intro that[of word k0 "d0(word \<mapsto> Parsed v)"]) auto
  qed
qed

lemma fetch_items_even:
  "fetch_items host items st = Inr r \<Longrightarrow> even (length items)"
proof (induct items arbitrary: st rule: pairs_induct)
  case (1 w v rest)
  obtain k0 d0 k d where "st = (k0, d0)" "r = (k, d)" by (cases st, cases r) auto
  with 1(2) have "fetch_items host (w # v # rest) (k0, d0) = Inr (k, d)" by simp
  then obtain k1 d1 where "fetch_items host rest (k1, d1) = Inr (k, d)"
    by (rule fetch_items_Cons_ok)
  from 1(1)[OF this[folded \<open>r = (k, d)\<close>]] show ?case by simp
next
  case 2
  show ?case by simp
next
  case (3 w)
  then show ?case by (cases "py_upper w") simp_all
qed

lemma fetch_items_dom:
  "fetch_items host items (k0, d0) = Inr (k, d) \<Longrightarrow>
     dom d = dom d0 \<union> (field_names items - {''UID''})"
proof (induct items arbitrary: k0 d0 rule: pairs_induct)
  case (1 w v rest)
  from 1(2) obtain word k1 d1 where w: "py_upper w = Inr word"
    and r: "fetch_items host rest (k1, d1) = Inr (k, d)"
    and c: "(word = ''UID'' \<and> py_int v = Inr k1 \<and> d1 = d0)
     \<or> (word = ''INTERNALDATE'' \<and> k1 = k0 \<and> (\<exists>dt. convert_INTERNALDATE host v = Inr dt \<and> d1 = d0(word \<mapsto> Date dt)))
     \<or> (word \<noteq> ''UID'' \<and> word \<noteq> ''INTERNALDATE'' \<and> k1 = k0 \<and> d1 = d0(word \<mapsto> Parsed v))"
    by (rule fetch_items_Cons_ok)
  have "dom d1 = (if word = ''UID'' then dom d0 else insert word (dom d0))"
    using c by (auto split: if_splits)
  with 1(1)[OF r] w show ?case by auto
next
  case 2
  then show ?case by simp
next
  case (3 w)
  then show ?case by (cases "py_upper w") simp_all
qed

lemma fetch_items_other:
  "fetch_items host items (k0, d0) = Inr (k, d) \<Longrightarrow> n \<notin> field_names items \<Longrightarrow> d n = d0 n"
proof (induct items arbitrary: k0 d0 rule: pairs_induct)
  case (1 w v rest)
  from 1(2) obtain word k1 d1 where w: "py_upper w = Inr word"
    and r: "fetch_items host rest (k1, d1) = Inr (k, d)"
    and c: "(word = ''UID'' \<and> py_int v = Inr k1 \<and> d1 = d0)
     \<or> (word = ''INTERNALDATE'' \<and> k1 = k0 \<and> (\<exists>dt. convert_INTERNALDATE host v = Inr dt \<and> d1 = d0(word \<mapsto> Date dt)))
     \<or> (word \<noteq> ''UID'' \<and> word \<noteq> ''INTERNALDATE'' \<and> k1 = k0 \<and> d1 = d0(word \<mapsto> Parsed v))"
    by (rule fetch_items_Cons_ok)
  from 1(3) w have n: "n \<noteq> word" "n \<notin> field_names rest" by simp_all
  from c n(1) have "d1 n = d0 n" by auto
  with 1(1)[OF r n(2)] show ?case by simp
next
  case 2
  then show ?case by simp
next
  case (3 w)
  then show ?case by (cases "py_upper w") simp_all
qed

lemma fetch_items_key:
  "fetch_items host items (k0, d0) = Inr (k, d) \<Longrightarrow>
     (uid_values items = [] \<longrightarrow> k = k0)
     \<and> (uid_values items \<noteq> [] \<longrightarrow> py_int (last (uid_values items)) = Inr k)"
proof (induct items arbitrary: k0 d0 rule: pairs_induct)
  case (1 w v rest)
  from 1(2) obtain word k1 d1 where w: "py_upper w = Inr word"
    and r: "fetch_items host rest (k1, d1) = Inr (k, d)"
    and c: "(word = ''UID'' \<and> py_int v = Inr k1 \<and> d1 = d0)
     \<or> (word = ''INTERNALDATE'' \<and> k1 = k0 \<and> (\<exists>dt. convert_INTERNALDATE host v = Inr dt \<and> d1 = d0(word \<mapsto> Date dt)))
     \<or> (word \<noteq> ''UID'' \<and> word \<noteq> ''INTERNALDATE'' \<and> k1 = k0 \<and> d1 = d0(word \<mapsto> Parsed v))"
    by (rule fetch_items_Cons_ok)
  from c have "(word = ''UID'' \<and> py_int v = Inr k1) \<or> (word \<noteq> ''UID'' \<and> k1 = k0)" by auto
  with 1(1)[OF r] w show ?case by auto
next
  case 2
  then show ?case by simp
next
  case (3 w)
  then show ?case by (cases "py_upper w") simp_all
qed

lemma fetch_items_append:
  "even (length fs1) \<Longrightarrow>
     fetch_items host (fs1 @ fs2) st = bind (fetch_items host fs1 st) (\<lambda>st1. fetch_items host fs2 st1)"
proof (induct fs1 arbitrary: st rule: pairs_induct)
  case (1 w v rest)
  from 1(2) have ev: "even (length rest)" by simp
  obtain k0 d0 where st: "st = (k0, d0)" by (cases st)
  show ?case
  proof (cases "py_upper w")
    case (Inl e)
    then show ?thesis by (simp add: st fetch_items_step)
  next
    case (Inr word)
    consider (uid) "word = ''UID''" | (date) "word = ''INTERNALDATE''"
      | (other) "word \<noteq> ''UID''" "word \<noteq> ''INTERNALDATE''" by blast
    then show ?thesis
    proof cases
      case uid
      show ?thesis
      proof (cases "int_or_error v ''invalid UID''")
        case (Inl e)
        with Inr uid show ?thesis by (simp add: st fetch_items_step)
      next
        case I: (Inr u)
        with Inr uid 1(1)[OF ev, of "(u, d0)"] show ?thesis by (simp add: st fetch_items_step)
      qed
    next
      case date
      show ?thesis
      proof (cases "convert_INTERNALDATE host v")
        case (Inl e)
        with Inr date show ?thesis by (simp add: st fetch_items_step)
      next
        case I: (Inr dt)
        have a: "fetch_items host ((w # v # rest) @ fs2) st
            = fetch_items host (rest @ fs2) (k0, d0(word \<mapsto> Date dt))"
          and b: "fetch_items host (w # v # rest) st = fetch_items host rest (k0, d0(word \<mapsto> Date dt))"
          using Inr date I by (simp_all add: st fetch_items_step)
        show ?thesis unfolding a b by (rule 1(1)[OF ev])
      qed
    next
      case other
      have a: "fetch_items host ((w # v # rest) @ fs2) st
          = fetch_items host (rest @ fs2) (k0, d0(word \<mapsto> Parsed v))"
        and b: "fetch_items host (w # v # rest) st = fetch_items host rest (k0, d0(word \<mapsto> Parsed v))"
        using Inr other by (simp_all add: st fetch_items_step)
      show ?thesis unfolding a b by (rule 1(1)[OF ev])
    qed
  qed
qed simp_all

subsection \<open>Uneven item lists\<close>

lemma fetch_values_even:
  "fetch_values host vals T0 = Inr T \<Longrightarrow> even (length vals)"
proof (induct vals arbitrary: T0 rule: pairs_induct)
  case (1 v r rest)
  show ?case
  proof (cases rule: message_cases[where v=v and host=host and r=r])
    case (bad_id e)
    with 1(2) show ?thesis by (simp add: fetch_values_bad_id)
  next
    case (bad_message msg_id e)
    with 1(2) show ?thesis by simp
  next
    case (ok msg_id key d)
    from 1(2)[unfolded fetch_values_ok[OF ok]] have "even (length rest)" by (rule 1(1))
    then show ?thesis by simp
  qed
next
  case 2
  show ?case by simp
next
  case (3 v)
  then show ?case by (cases "int_or_error v ''invalid message ID''") simp_all
qed

text \<open>Messages that decode, in front of the rest of a source.\<close>

lemma fetch_before:
  assumes "parse_fetch_response host before = Inr T"
  shows "parse_fetch_response host (before @ rest) = fetch_loop host rest T"
proof -
  from assms have l: "fetch_loop host before Map.empty = Inr T"
    by (simp add: parse_fetch_response_def)
  from fetch_loop_parses[OF l] obtain vals where p: "gen_parsed_response before = Inr vals" by blast
  from l have v: "fetch_values host vals Map.empty = Inr T"
    by (simp add: fetch_loop_values[OF p])
  from fetch_loop_append[OF p fetch_values_even[OF v], of host rest Map.empty] v
  show ?thesis by (simp add: parse_fetch_response_def)
qed

lemma fetch_message_tokens:
  assumes "gen_parsed_response msg = Inr [m, r]"
  shows "fetch_loop host (msg @ rest) T =
           bind (int_or_error m ''invalid message ID'') (\<lambda>msg_id.
             bind (fetch_message host msg_id r) (\<lambda>(key, d). fetch_loop host rest (T(key \<mapsto> d))))"
proof -
  from gen_parsed_response_Cons[OF assms] obtain s1
    where g1: "gen_next msg = Inr (Some (m, s1))" and r1: "gen_parsed_response s1 = Inr [r]"
    by blast
  from gen_parsed_response_Cons[OF r1] obtain s2
    where g2: "gen_next s1 = Inr (Some (r, s2))" and r2: "gen_parsed_response s2 = Inr []"
    by blast
  from gen_parsed_response_empty[OF r2] have "s2 = []" .
  with fetch_loop_step[OF gen_next_append[OF g1, of rest] gen_next_append[OF g2, of rest], of host T]
  show ?thesis by simp
qed

lemma fetch_first_value_tokens:
  assumes "gen_parsed_response first = Inr [m]" "int_or_error m ''invalid message ID'' = Inl e"
  shows "fetch_loop host (first @ rest) T = Inl e"
proof -
  from gen_parsed_response_Cons[OF assms(1)] obtain s1
    where g1: "gen_next first = Inr (Some (m, s1))" by blast
  from fetch_loop_bad_id[OF gen_next_append[OF g1, of rest] assms(2)] show ?thesis .
qed

lemma fetch_message_odd:
  "odd (length items) \<Longrightarrow> fetch_message host msg_id (PTuple items) = Inl (uneven_items (PTuple items))"
  by (simp add: fetch_message_def)



subsection \<open>Message numbers\<close>




subsection \<open>Records and their keys\<close>

lemma fetch_message_ok:
  assumes "fetch_message host s r = Inr (k, d)"
  obtains items where "r = PTuple items" "even (length items)"
    "fetch_items host items (s, [''SEQ'' \<mapsto> Parsed (PInt s)]) = Inr (k, d)"
  using assms by (cases r) (auto simp: fetch_message_def split: if_splits)

text \<open>Every entry of the table that the loop returns is the starting table's or a message's.\<close>

lemma fetch_values_entries:
  "fetch_values host vals T0 = Inr T \<Longrightarrow> T k = Some d \<Longrightarrow>
     T0 k = Some d
     \<or> (\<exists>m r s. (m, r) \<in> set (pairs vals) \<and> py_int m = Inr s \<and> fetch_message host s r = Inr (k, d))"
proof (induct vals arbitrary: T0 rule: pairs_induct)
  case (1 v r rest)
  show ?case
  proof (cases rule: message_cases[where v=v and host=host and r=r])
    case (bad_id e)
    with 1(2) show ?thesis by (simp add: fetch_values_bad_id)
  next
    case (bad_message msg_id e)
    with 1(2) show ?thesis by simp
  next
    case (ok msg_id key d1)
    from 1(1)[OF 1(2)[unfolded fetch_values_ok[OF ok]] 1(3)]
    show ?thesis
    proof
      assume "(T0(key \<mapsto> d1)) k = Some d"
      then have "T0 k = Some d \<or> (k = key \<and> d = d1)" by (auto split: if_splits)
      with ok show ?thesis by (auto simp: int_or_error_Inr)
    next
      assume "\<exists>m r s. (m, r) \<in> set (pairs rest) \<and> py_int m = Inr s \<and> fetch_message host s r = Inr (k, d)"
      then show ?thesis by auto
    qed
  qed
next
  case 2
  then show ?case by simp
next
  case (3 v)
  then show ?case by (cases "int_or_error v ''invalid message ID''") simp_all
qed

lemma fetch_loop_from:
  assumes "fetch_loop host src T0 = Inr T"
  obtains T3 where "fetch_loop host src Map.empty = Inr T3" "T = T0 ++ T3"
proof -
  from fetch_loop_parses[OF assms] obtain vals where p: "gen_parsed_response src = Inr vals" by blast
  from assms have "fetch_values host vals T0 = Inr T" by (simp add: fetch_loop_values[OF p])
  then obtain T3 where "fetch_values host vals Map.empty = Inr T3" "T = T0 ++ T3"
    by (subst (asm) fetch_values_from) (cases "fetch_values host vals Map.empty"; auto)
  then show ?thesis using that by (simp add: fetch_loop_values[OF p])
qed

lemma SEQ_not_UID: "''SEQ'' \<noteq> ''UID''"
  by simp



subsection \<open>UID fields\<close>

text \<open>
  Claim C1, as the code has it. Each \<^verbatim>\<open>UID\<close> field of a message assigns the key
  anew, so the last one decides: the message 7 with the fields \<^verbatim>\<open>UID 42 UID 43\<close> has
  a \<^verbatim>\<open>UID\<close> field with the value 42, and its record is stored under 43 only.
\<close>

theorem last_uid_field_decides:
  "gen_parsed_response
      [(''7'', None), (''('', None), (''UID'', None), (''42'', None), (''UID'', None), (''43'', None),
       ('')'', None)]
     = Inr [PInt 7, PTuple [PStr ''UID'', PInt 42, PStr ''UID'', PInt 43]]
   \<and> parse_fetch_response 0
      [(''7'', None), (''('', None), (''UID'', None), (''42'', None), (''UID'', None), (''43'', None),
       ('')'', None)]
     = Inr [43 \<mapsto> [''SEQ'' \<mapsto> Parsed (PInt 7)]]"
proof -
  let ?src = "[(''7'', None), (''('', None), (''UID'', None), (''42'', None), (''UID'', None),
       (''43'', None), ('')'', None)]"
  have p: "gen_parsed_response ?src = Inr [PInt 7, PTuple [PStr ''UID'', PInt 42, PStr ''UID'', PInt 43]]"
    by code_simp
  have up: "str_upper ''UID'' = ''UID''" by code_simp
  have i: "int_or_error (PInt 7) ''invalid message ID'' = Inr 7"
    "int_or_error (PInt 42) ''invalid UID'' = Inr 42" "int_or_error (PInt 43) ''invalid UID'' = Inr 43"
    by (simp_all add: int_or_error_def)
  have f: "fetch_items 0 [PStr ''UID'', PInt 42, PStr ''UID'', PInt 43] (7, [''SEQ'' \<mapsto> Parsed (PInt 7)])
      = Inr (43, [''SEQ'' \<mapsto> Parsed (PInt 7)])"
    by (simp add: fetch_items_step up i)
  show ?thesis
    by (simp add: p parse_fetch_response_def fetch_loop_values[OF p] i fetch_message_def f)
qed

text \<open>
  Claim C1, amended. In a FETCH batch that decodes, take a message with the
  sequence number \<open>s\<close> that has a field named \<^verbatim>\<open>UID\<close>, in any case of letters, and let
  \<open>u\<close> be the value of the last such field. Then \<open>u\<close> converts to an integer \<open>k\<close>, the
  record of the message has the key \<open>k\<close> and not \<open>s\<close>, and the table is the one of the
  messages before, then this record under \<open>k\<close>, then the table of the messages
  after: the record is found under \<open>k\<close> unless a later message takes the same key.
  The record has the entry \<^verbatim>\<open>SEQ\<close> equal to \<open>s\<close> when no field of the message is itself
  named \<^verbatim>\<open>SEQ\<close>. In particular the message 7 with the fields \<^verbatim>\<open>UID 42 FLAGS (x y)\<close>
  gives the table whose only entry, at 42, has \<^verbatim>\<open>SEQ\<close> 7 and \<^verbatim>\<open>FLAGS\<close> \<^verbatim>\<open>(x, y)\<close>.
\<close>

theorem uid_replaces_key:
  "(parse_fetch_response host (before @ msg @ after) = Inr T
      \<and> parse_fetch_response host before = Inr T1
      \<and> gen_parsed_response msg = Inr [m, PTuple items] \<and> py_int m = Inr s
      \<and> uid_values items \<noteq> []
    \<longrightarrow> (\<exists>k d T3. py_int (last (uid_values items)) = Inr k
           \<and> fetch_message host s (PTuple items) = Inr (k, d)
           \<and> parse_fetch_response host after = Inr T3
           \<and> T = T1(k \<mapsto> d) ++ T3
           \<and> (k \<notin> dom T3 \<longrightarrow> T k = Some d)
           \<and> (''SEQ'' \<notin> field_names items \<longrightarrow> d ''SEQ'' = Some (Parsed (PInt s)))))
   \<and> parse_fetch_response host
        [(''7'', None), (''('', None), (''UID'', None), (''42'', None), (''FLAGS'', None),
         (''('', None), (''x'', None), (''y'', None), ('')'', None), ('')'', None)]
       = Inr [42 \<mapsto> [''SEQ'' \<mapsto> Parsed (PInt 7),
                       ''FLAGS'' \<mapsto> Parsed (PTuple [PStr ''x'', PStr ''y''])]]"
proof (intro conjI impI)
  assume a: "parse_fetch_response host (before @ msg @ after) = Inr T
      \<and> parse_fetch_response host before = Inr T1
      \<and> gen_parsed_response msg = Inr [m, PTuple items] \<and> py_int m = Inr s
      \<and> uid_values items \<noteq> []"
  then have whole: "parse_fetch_response host (before @ msg @ after) = Inr T"
    and b: "parse_fetch_response host before = Inr T1"
    and p: "gen_parsed_response msg = Inr [m, PTuple items]"
    and i: "int_or_error m ''invalid message ID'' = Inr s"
    and u: "uid_values items \<noteq> []"
    by (simp_all add: int_or_error_Inr)
  from whole[unfolded fetch_before[OF b] fetch_message_tokens[OF p]] i
  obtain kd where f: "fetch_message host s (PTuple items) = Inr kd"
    and l: "fetch_loop host after (T1(fst kd \<mapsto> snd kd)) = Inr T"
    by (auto simp: bind_eq_Inr)
  obtain k d where kd: "kd = (k, d)" by (cases kd)
  from l obtain T3 where t3: "fetch_loop host after Map.empty = Inr T3"
    and t: "T = T1(k \<mapsto> d) ++ T3"
    unfolding kd fst_conv snd_conv by (rule fetch_loop_from)
  from f kd obtain fi: "fetch_items host items (s, [''SEQ'' \<mapsto> Parsed (PInt s)]) = Inr (k, d)"
    by (auto elim: fetch_message_ok)
  from fetch_items_key[OF fi] u have key: "py_int (last (uid_values items)) = Inr k" by simp
  have seq: "d ''SEQ'' = Some (Parsed (PInt s))" if "''SEQ'' \<notin> field_names items"
    using fetch_items_other[OF fi that] by simp
  have at: "T k = Some d" if "k \<notin> dom T3"
    using that by (simp add: t map_add_dom_app_simps)
  from key f[unfolded kd] t3 t at seq
  show "\<exists>k d T3. py_int (last (uid_values items)) = Inr k
           \<and> fetch_message host s (PTuple items) = Inr (k, d)
           \<and> parse_fetch_response host after = Inr T3
           \<and> T = T1(k \<mapsto> d) ++ T3
           \<and> (k \<notin> dom T3 \<longrightarrow> T k = Some d)
           \<and> (''SEQ'' \<notin> field_names items \<longrightarrow> d ''SEQ'' = Some (Parsed (PInt s)))"
    unfolding parse_fetch_response_def by (intro exI[of _ k] exI[of _ d] exI[of _ T3]) blast
next
  let ?src = "[(''7'', None), (''('', None), (''UID'', None), (''42'', None), (''FLAGS'', None),
       (''('', None), (''x'', None), (''y'', None), ('')'', None), ('')'', None)]"
  let ?items = "[PStr ''UID'', PInt 42, PStr ''FLAGS'', PTuple [PStr ''x'', PStr ''y'']]"
  have up: "str_upper ''UID'' = ''UID''" "str_upper ''FLAGS'' = ''FLAGS''" by code_simp+
  have p: "gen_parsed_response ?src = Inr [PInt 7, PTuple ?items]" by code_simp
  have i: "int_or_error (PInt 7) ''invalid message ID'' = Inr 7"
    "int_or_error (PInt 42) ''invalid UID'' = Inr 42"
    by (simp_all add: int_or_error_def)
  have f: "fetch_items host ?items (7, [''SEQ'' \<mapsto> Parsed (PInt 7)])
     = Inr (42, [''SEQ'' \<mapsto> Parsed (PInt 7), ''FLAGS'' \<mapsto> Parsed (PTuple [PStr ''x'', PStr ''y''])])"
    by (simp add: fetch_items_step up i)
  show "parse_fetch_response host ?src
       = Inr [42 \<mapsto> [''SEQ'' \<mapsto> Parsed (PInt 7),
                       ''FLAGS'' \<mapsto> Parsed (PTuple [PStr ''x'', PStr ''y''])]]"
    by (simp add: parse_fetch_response_def fetch_loop_values[OF p] i fetch_message_def f)
qed

theorem uid_replaces_key_witness:
  "parse_fetch_response 0
     ([] @ [(''7'', None), (''('', None), (''uid'', None), (''42'', None), (''FLAGS'', None),
            (''('', None), (''x'', None), (''y'', None), ('')'', None), ('')'', None)]
         @ [(''8'', None), (''('', None), (''UID'', None), (''9'', None), ('')'', None)])
     = Inr [42 \<mapsto> [''SEQ'' \<mapsto> Parsed (PInt 7), ''FLAGS'' \<mapsto> Parsed (PTuple [PStr ''x'', PStr ''y''])],
            9 \<mapsto> [''SEQ'' \<mapsto> Parsed (PInt 8)]]
   \<and> parse_fetch_response 0 [] = Inr Map.empty
   \<and> gen_parsed_response
        [(''7'', None), (''('', None), (''uid'', None), (''42'', None), (''FLAGS'', None),
         (''('', None), (''x'', None), (''y'', None), ('')'', None), ('')'', None)]
       = Inr [PInt 7, PTuple [PStr ''uid'', PInt 42, PStr ''FLAGS'', PTuple [PStr ''x'', PStr ''y'']]]
   \<and> py_int (PInt 7) = Inr 7
   \<and> uid_values [PStr ''uid'', PInt 42, PStr ''FLAGS'', PTuple [PStr ''x'', PStr ''y'']] = [PInt 42]
   \<and> ''SEQ'' \<notin> field_names [PStr ''uid'', PInt 42, PStr ''FLAGS'', PTuple [PStr ''x'', PStr ''y'']]
   \<and> (\<exists>d. [42 :: int \<mapsto> [''SEQ'' \<mapsto> Parsed (PInt 7), ''FLAGS'' \<mapsto> Parsed (PTuple [PStr ''x'', PStr ''y''])],
             9 \<mapsto> [''SEQ'' \<mapsto> Parsed (PInt 8)]] 42 = Some d
          \<and> d ''SEQ'' = Some (Parsed (PInt 7)))"
proof -
  let ?msg = "[(''7'', None), (''('', None), (''uid'', None), (''42'', None), (''FLAGS'', None),
         (''('', None), (''x'', None), (''y'', None), ('')'', None), ('')'', None)]"
  let ?after = "[(''8'', None), (''('', None), (''UID'', None), (''9'', None), ('')'', None)]"
  let ?items = "[PStr ''uid'', PInt 42, PStr ''FLAGS'', PTuple [PStr ''x'', PStr ''y'']]"
  let ?rec = "[''SEQ'' \<mapsto> Parsed (PInt 7), ''FLAGS'' \<mapsto> Parsed (PTuple [PStr ''x'', PStr ''y''])]"
  let ?T = "[42 :: int \<mapsto> ?rec, 9 \<mapsto> [''SEQ'' \<mapsto> Parsed (PInt 8)]]"
  have up: "str_upper ''UID'' = ''UID''" "str_upper ''uid'' = ''UID''" "str_upper ''FLAGS'' = ''FLAGS''"
    by code_simp+
  have p: "gen_parsed_response ?msg = Inr [PInt 7, PTuple ?items]" by code_simp
  have pw: "gen_parsed_response ([] @ ?msg @ ?after)
      = Inr [PInt 7, PTuple ?items, PInt 8, PTuple [PStr ''UID'', PInt 9]]" by code_simp
  have pa: "gen_parsed_response ?after = Inr [PInt 8, PTuple [PStr ''UID'', PInt 9]]" by code_simp
  have i: "int_or_error (PInt 7) ''invalid message ID'' = Inr 7"
    "int_or_error (PInt 8) ''invalid message ID'' = Inr 8"
    "int_or_error (PInt 42) ''invalid UID'' = Inr 42" "int_or_error (PInt 9) ''invalid UID'' = Inr 9"
    by (simp_all add: int_or_error_def)
  have f: "fetch_message 0 7 (PTuple ?items) = Inr (42, ?rec)"
    by (simp add: fetch_message_def fetch_items_step up i)
  have f2: "fetch_message 0 8 (PTuple [PStr ''UID'', PInt 9]) = Inr (9, [''SEQ'' \<mapsto> Parsed (PInt 8)])"
    by (simp add: fetch_message_def fetch_items_step up i)
  have whole: "parse_fetch_response 0 ([] @ ?msg @ ?after) = Inr ?T"
    by (simp only: parse_fetch_response_def fetch_loop_values[OF pw])
       (simp add: i f f2)
  have e: "parse_fetch_response 0 [] = Inr Map.empty" by (simp add: parse_fetch_response_def)
  have u: "uid_values ?items = [PInt 42]" by (simp add: up)
  have n: "''SEQ'' \<notin> field_names ?items" by (simp add: up)
  have ta: "parse_fetch_response 0 ?after = Inr [9 \<mapsto> [''SEQ'' \<mapsto> Parsed (PInt 8)]]"
    by (simp only: parse_fetch_response_def fetch_loop_values[OF pa]) (simp add: i f2)
  from uid_replaces_key[of 0 "[]" ?msg ?after ?T Map.empty "PInt 7" ?items 7] whole e p u
  obtain k d T3 where "py_int (last (uid_values ?items)) = Inr k"
    and "fetch_message 0 7 (PTuple ?items) = Inr (k, d)"
    and "parse_fetch_response 0 ?after = Inr T3"
    and at: "k \<notin> dom T3 \<longrightarrow> ?T k = Some d"
    and sq: "''SEQ'' \<notin> field_names ?items \<longrightarrow> d ''SEQ'' = Some (Parsed (PInt 7))"
    by auto
  with u f ta have "k = 42" "d = ?rec" "T3 = [9 \<mapsto> [''SEQ'' \<mapsto> Parsed (PInt 8)]]" by simp_all
  with at sq n have "?T (42::int) = Some d \<and> d ''SEQ'' = Some (Parsed (PInt 7))" by simp
  then have "\<exists>d. ?T (42::int) = Some d \<and> d ''SEQ'' = Some (Parsed (PInt 7))" by blast
  with whole e p u n show ?thesis by simp
qed

subsection \<open>Malformed dates\<close>

lemma convert_INTERNALDATE_no_match:
  assumes "format_arg v = Inr a"
    "InternalDate_match (''INTERNALDATE '' @ [CHR 0x22] @ py_str a @ [CHR 0x22]) = None"
  shows "convert_INTERNALDATE host v = Inl (couldnt_parse_date a)"
  using assms by (simp add: convert_INTERNALDATE_def)

lemma fetch_items_date_error:
  assumes "py_upper w = Inr ''INTERNALDATE''" "convert_INTERNALDATE host v = Inl e"
  shows "fetch_items host ([w, v] @ fs2) st = Inl e"
proof -
  obtain k d where st: "st = (k, d)" by (cases st)
  show ?thesis unfolding st by (simp add: fetch_items_step assms)
qed

lemma fetch_message_date_error:
  assumes "even (length fs1)" "py_upper w = Inr ''INTERNALDATE''"
    "convert_INTERNALDATE host v = Inl e"
  shows "\<exists>e'. fetch_message host msg_id (PTuple (fs1 @ [w, v] @ fs2)) = Inl e'"
proof (cases "odd (length (fs1 @ [w, v] @ fs2))")
  case True
  from fetch_message_odd[OF this] show ?thesis by blast
next
  case False
  then have "fetch_message host msg_id (PTuple (fs1 @ [w, v] @ fs2))
      = fetch_items host (fs1 @ [w, v] @ fs2) (msg_id, [''SEQ'' \<mapsto> Parsed (PInt msg_id)])"
    by (simp add: fetch_message_def)
  also have "\<dots> = bind (fetch_items host fs1 (msg_id, [''SEQ'' \<mapsto> Parsed (PInt msg_id)]))
      (\<lambda>st1. fetch_items host ([w, v] @ fs2) st1)"
    by (rule fetch_items_append[OF assms(1)])
  also have "\<dots> = bind (fetch_items host fs1 (msg_id, [''SEQ'' \<mapsto> Parsed (PInt msg_id)])) (\<lambda>st1. Inl e)"
    by (simp only: fetch_items_date_error[OF assms(2,3)])
  finally show ?thesis
    by (cases "fetch_items host fs1 (msg_id, [''SEQ'' \<mapsto> Parsed (PInt msg_id)])") simp_all
qed




end
